theory Spec2Isabelle
  imports Complex_Main "HOL-Library.AList"
begin

section \<open>Configuration values\<close>

text \<open>
  A preset's configuration is the JSON tree loaded from a preset file: Python's
  \<^verbatim>\<open>None\<close>, \<^verbatim>\<open>bool\<close>, \<^verbatim>\<open>int\<close>, \<^verbatim>\<open>float\<close>, \<^verbatim>\<open>str\<close>, \<^verbatim>\<open>list\<close> and \<^verbatim>\<open>dict\<close>.
  A \<^verbatim>\<open>dict\<close> is an association list in insertion order; Python keeps its keys
  distinct (\<open>py_wf\<close> below). A \<^verbatim>\<open>float\<close> is a finite value, kept as the rational it
  denotes, one of the two infinities, or NaN; Python's \<^verbatim>\<open>json\<close> reads all of them.
\<close>

datatype pyfloat = Fin rat | PInf | NInf | NaN

datatype jval =
    JNone
  | JBool bool
  | JInt int
  | JFloat pyfloat
  | JStr string
  | JList "jval list"
  | JDict "(string \<times> jval) list"

type_synonym jdict = "(string \<times> jval) list"

text \<open>The exceptions of \<^verbatim>\<open>Preset.py\<close>: \<^verbatim>\<open>NotFoundError\<close> of the configuration block and
  the built-in ones that the dictionary and attribute accesses raise.\<close>

datatype error =
    NotFoundError string
  | TypeError string
  | KeyError string
  | AttributeError string
  | IndexError string
  | ValueError string

text \<open>Python's \<^verbatim>\<open>==\<close> on these values: \<^verbatim>\<open>bool\<close>, \<^verbatim>\<open>int\<close> and \<^verbatim>\<open>float\<close> compare by their
  number (\<^verbatim>\<open>True == 1 == 1.0\<close>), and NaN is equal to nothing, itself included; lists
  compare element by element, dictionaries key by key whatever the order. Inside a list
  or a dictionary Python takes two elements that are the same object as equal before it
  asks \<^verbatim>\<open>==\<close>, which only shows on NaN; values have no identity here, so \<open>py_eq\<close> is
  Python's \<^verbatim>\<open>==\<close> on the values without a NaN inside a container (\<open>py_wf\<close> below).\<close>

fun num_of :: "jval \<Rightarrow> pyfloat option" where
  "num_of (JBool b) = Some (Fin (if b then 1 else 0))"
| "num_of (JInt i) = Some (Fin (of_int i))"
| "num_of (JFloat r) = Some r"
| "num_of _ = None"

fun py_eq :: "jval \<Rightarrow> jval \<Rightarrow> bool"
  and py_eq_list :: "jval list \<Rightarrow> jval list \<Rightarrow> bool"
  and py_eq_items :: "jdict \<Rightarrow> jdict \<Rightarrow> bool" where
  "py_eq JNone b = (b = JNone)"
| "py_eq (JBool x) b = (num_of b = Some (Fin (if x then 1 else 0)))"
| "py_eq (JInt i) b = (num_of b = Some (Fin (of_int i)))"
| "py_eq (JFloat r) b = (r \<noteq> NaN \<and> num_of b = Some r)"
| "py_eq (JStr s) b = (b = JStr s)"
| "py_eq (JList xs) b = (case b of JList ys \<Rightarrow> py_eq_list xs ys | _ \<Rightarrow> False)"
| "py_eq (JDict xs) b =
     (case b of JDict ys \<Rightarrow> length xs = length ys \<and> py_eq_items xs ys | _ \<Rightarrow> False)"
| "py_eq_list [] ys = (ys = [])"
| "py_eq_list (x # xs) ys = (case ys of [] \<Rightarrow> False | y # ys' \<Rightarrow> py_eq x y \<and> py_eq_list xs ys')"
| "py_eq_items [] ys = True"
| "py_eq_items ((k, v) # xs) ys =
     (case map_of ys k of None \<Rightarrow> False | Some w \<Rightarrow> py_eq v w \<and> py_eq_items xs ys)"

text \<open>Python's \<^verbatim>\<open>bool(x)\<close> and \<^verbatim>\<open>len(x)\<close>.\<close>

fun py_bool :: "jval \<Rightarrow> bool" where
  "py_bool JNone = False"
| "py_bool (JBool b) = b"
| "py_bool (JInt i) = (i \<noteq> 0)"
| "py_bool (JFloat r) = (r \<noteq> Fin 0)"
| "py_bool (JStr s) = (s \<noteq> [])"
| "py_bool (JList xs) = (xs \<noteq> [])"
| "py_bool (JDict kvs) = (kvs \<noteq> [])"

fun py_len :: "jval \<Rightarrow> error + nat" where
  "py_len (JStr s) = Inr (length s)"
| "py_len (JList xs) = Inr (length xs)"
| "py_len (JDict kvs) = Inr (length kvs)"
| "py_len _ = Inl (TypeError ''object has no len()'')"

text \<open>\<^verbatim>\<open>key.split('/')\<close> and its inverse, the \<^verbatim>\<open>'/'\<close>-joined path of a key sequence.\<close>

fun split :: "char \<Rightarrow> string \<Rightarrow> string list" where
  "split c [] = [[]]"
| "split c (x # xs) =
     (if x = c then [] # split c xs
      else (x # hd (split c xs)) # tl (split c xs))"

fun join :: "string list \<Rightarrow> string" where
  "join [] = []"
| "join [k] = k"
| "join (k # ks) = k @ ''/'' @ join ks"

section \<open>The configuration block\<close>

text \<open>
  \<^verbatim>\<open>ConfigurationBlock\<close> (module \<^verbatim>\<open>TaskConf.config.ConfigurationBlock\<close>) is not among the
  sources. The spec gives its interface: it is constructed from a nested key-value tree;
  \<^verbatim>\<open>flatten()\<close> is the mapping of \<^verbatim>\<open>'/'\<close>-joined path to leaf value, a node being either a
  leaf or a mapping of child nodes; \<^verbatim>\<open>get_int\<close>, \<^verbatim>\<open>get_string\<close>, \<^verbatim>\<open>get_float\<close>,
  \<^verbatim>\<open>get_bool\<close> and \<^verbatim>\<open>get_list\<close> fail with NotFound when the name is absent and with a type
  error when the value is present but cannot be converted. A block is the tree it wraps.
\<close>

text \<open>Modelled from the spec: the walk of \<^verbatim>\<open>ConfigurationBlock.flatten\<close>, which is not among
  the sources. Depth first, in insertion order; a nested mapping contributes the paths
  of its children under its own key and \<^verbatim>\<open>'/'\<close>, any other value is a leaf.\<close>

fun flat_items :: "string \<Rightarrow> jdict \<Rightarrow> jdict" where
  "flat_items pre [] = []"
| "flat_items pre ((k, v) # kvs) =
     (case v of
        JDict sub \<Rightarrow> flat_items (pre @ k @ ''/'') sub
      | _ \<Rightarrow> [(pre @ k, v)]) @ flat_items pre kvs"

text \<open>Modelled from the spec: \<^verbatim>\<open>ConfigurationBlock.flatten\<close>, which is not among the
  sources. The pairs of the walk are stored one by one into a dictionary.\<close>

definition flatten :: "jdict \<Rightarrow> jdict" where
  "flatten c = foldl (\<lambda>acc (p, v). AList.update p v acc) [] (flat_items [] c)"

datatype vtype = TInt | TString | TFloat | TBool | TList

text \<open>Modelled from the spec: the typed getters \<^verbatim>\<open>get_int\<close>, \<^verbatim>\<open>get_string\<close>, \<^verbatim>\<open>get_float\<close>,
  \<^verbatim>\<open>get_bool\<close> and \<^verbatim>\<open>get_list\<close> of \<^verbatim>\<open>ConfigurationBlock\<close>, which are not among the
  sources. A name is the \<^verbatim>\<open>'/'\<close>-joined path of a leaf; an absent name is NotFound. The
  conversion of the raw value to the requested type is not in the spec: it is the
  parameter \<open>conv\<close>, \<open>None\<close> when the value cannot be converted.\<close>

definition cb_get :: "(vtype \<Rightarrow> jval \<Rightarrow> jval option) \<Rightarrow> vtype \<Rightarrow> jdict \<Rightarrow> string \<Rightarrow> error + jval" where
  "cb_get conv T c name =
     (case map_of (flatten c) name of
        None \<Rightarrow> Inl (NotFoundError name)
      | Some v \<Rightarrow>
          (case conv T v of
             None \<Rightarrow> Inl (TypeError name)
           | Some w \<Rightarrow> Inr w))"

section \<open>Presets\<close>

text \<open>
  The raw record \<^verbatim>\<open>data\<close> of a preset, with the keys that \<^verbatim>\<open>Preset.py\<close> reads or writes;
  an absent key is \<open>None\<close>.
\<close>

record data =
  data_name :: "string option"
  data_uuid :: "string option"
  data_creation_time :: "rat option"
  data_config :: "jdict option"
  data_abstract :: "jval option"

text \<open>
  The attributes of a \<^verbatim>\<open>Preset\<close> object. The logger is an external object with one
  method, \<^verbatim>\<open>log(message)\<close>: it is the list of the lines it has received, \<open>None\<close> when
  no logger is set. \<^verbatim>\<open>config\<close> is \<open>None\<close> for a preset created without data, otherwise
  the configuration block over \<^verbatim>\<open>data['config']\<close>.
\<close>

record attrs =
  prefix :: string
  preset_file :: "string option"
  try_number :: nat
  printed_settings :: "string set"
  logger :: "string list option"
  data :: data
  name :: string
  uuid :: string
  creation_time :: rat
  config :: "jdict option"
  abstract :: bool

datatype preset = Preset (attrs: attrs) (base_preset: "preset option")


subsection \<open>Resolution\<close>

text \<open>
  \<^verbatim>\<open>_get_value\<close> (Isabelle names cannot start with an underscore): the lookup in the
  preset's own block, \<^verbatim>\<open>getattr(self.config, 'get_' + value_type)(name)\<close>; the type tag
  selects the getter. On a preset without data \<^verbatim>\<open>self.config\<close> is \<^verbatim>\<open>None\<close> and the
  attribute access raises. Only \<^verbatim>\<open>NotFoundError\<close> is caught: a root re-raises it, any
  other preset asks its base with the same name.
\<close>

definition own_lookup ::
  "(vtype \<Rightarrow> jval \<Rightarrow> jval option) \<Rightarrow> preset \<Rightarrow> string \<Rightarrow> vtype \<Rightarrow> error + jval" where
  "own_lookup conv self nm T =
     (case config (attrs self) of
        None \<Rightarrow> Inl (AttributeError ''get'')
      | Some c \<Rightarrow> cb_get conv T c nm)"

fun get_value ::
  "(vtype \<Rightarrow> jval \<Rightarrow> jval option) \<Rightarrow> preset \<Rightarrow> string \<Rightarrow> vtype \<Rightarrow> error + jval" where
  "get_value conv (Preset a b) nm T =
     (case own_lookup conv (Preset a b) nm T of
        Inl (NotFoundError m) \<Rightarrow>
          (case b of
             None \<Rightarrow> Inl (NotFoundError m)
           | Some bp \<Rightarrow> get_value conv bp nm T)
      | Inl e \<Rightarrow> Inl e
      | Inr v \<Rightarrow> Inr v)"

text \<open>
  \<^verbatim>\<open>_get_value_with_fallback\<close>: the result and the preset after the call (the logger
  and the set of printed settings change). \<^verbatim>\<open>str(value)\<close> is the parameter \<open>pystr\<close>.
\<close>

definition get_value_with_fallback ::
  "(vtype \<Rightarrow> jval \<Rightarrow> jval option) \<Rightarrow> (jval \<Rightarrow> string) \<Rightarrow> preset \<Rightarrow> string \<Rightarrow> string option
     \<Rightarrow> vtype \<Rightarrow> (error + jval) \<times> preset" where
  "get_value_with_fallback conv pystr self nm fallback T =
     (let a = attrs self;
          nm' = prefix a @ nm;
          r = (case get_value conv self nm' T of
                 Inl (NotFoundError m) \<Rightarrow>
                   (case fallback of
                      Some fb \<Rightarrow> get_value conv self (prefix a @ fb) T
                    | None \<Rightarrow> Inl (NotFoundError m))
               | Inl e \<Rightarrow> Inl e
               | Inr v \<Rightarrow> Inr v)
      in case r of
           Inl e \<Rightarrow> (Inl e, self)
         | Inr v \<Rightarrow>
             (case logger a of
                Some ls \<Rightarrow>
                  if nm' \<notin> printed_settings a
                  then (Inr v,
                        Preset (a\<lparr>logger := Some (ls @ [''Using '' @ nm' @ '' = '' @ pystr v]),
                                  printed_settings := insert nm' (printed_settings a)\<rparr>)
                          (base_preset self))
                  else (Inr v, self)
              | None \<Rightarrow> (Inr v, self)))"

definition get_int where
  "get_int conv pystr self nm fallback = get_value_with_fallback conv pystr self nm fallback TInt"

definition get_string where
  "get_string conv pystr self nm fallback = get_value_with_fallback conv pystr self nm fallback TString"

definition get_float where
  "get_float conv pystr self nm fallback = get_value_with_fallback conv pystr self nm fallback TFloat"

definition get_bool where
  "get_bool conv pystr self nm fallback = get_value_with_fallback conv pystr self nm fallback TBool"

definition get_list where
  "get_list conv pystr self nm fallback = get_value_with_fallback conv pystr self nm fallback TList"

subsection \<open>Construction without data, cloning, prefix scoping, logger\<close>

text \<open>\<^verbatim>\<open>Preset(data=None, base_preset, file)\<close>: the branch of \<^verbatim>\<open>__init__\<close> without data.\<close>

definition empty_data :: data where
  "empty_data = \<lparr>data_name = None, data_uuid = None, data_creation_time = None,
                  data_config = None, data_abstract = None\<rparr>"

definition init_no_data :: "preset option \<Rightarrow> string option \<Rightarrow> preset" where
  "init_no_data base f =
     Preset \<lparr>prefix = [], preset_file = f, try_number = 0, printed_settings = {},
             logger = None, data = empty_data, name = [], uuid = [], creation_time = 0,
             config = None, abstract = False\<rparr> base"

definition clone :: "preset \<Rightarrow> preset" where
  "clone self =
     (let p = init_no_data (base_preset self) None;
          s = attrs self
      in Preset ((attrs p)\<lparr>name := name s, config := config s, data := data s,
                            prefix := prefix s, preset_file := preset_file s,
                            try_number := try_number s, uuid := uuid s,
                            creation_time := creation_time s\<rparr>)
           (base_preset p))"

definition get_with_prefix :: "preset \<Rightarrow> string \<Rightarrow> preset" where
  "get_with_prefix self pre =
     (let p = clone self
      in Preset ((attrs p)\<lparr>prefix := prefix (attrs self) @ pre @ ''/''\<rparr>) (base_preset p))"

definition set_logger :: "preset \<Rightarrow> string list option \<Rightarrow> preset" where
  "set_logger self new_logger =
     Preset ((attrs self)\<lparr>printed_settings := {}, logger := new_logger\<rparr>) (base_preset self)"


subsection \<open>Diff engine\<close>

text \<open>
  \<^verbatim>\<open>diff_config\<close> mutates the nested dictionaries of the candidate in place; the model
  rebuilds the tree along the path. \<open>del_path keys cfg\<close> is
  \<^verbatim>\<open>block = config; for k in keys[:-1]: block = block[k]; del block[keys[-1]]\<close>:
  a missing key raises \<^verbatim>\<open>KeyError\<close>, subscripting or deleting with a string key in a
  value that is not a dictionary raises \<^verbatim>\<open>TypeError\<close>. \<open>get_path keys cfg\<close> is the
  same walk ending in \<^verbatim>\<open>block[keys[-1]]\<close>.
\<close>

fun del_path :: "string list \<Rightarrow> jdict \<Rightarrow> error + jdict" where
  "del_path [] cfg = Inl (IndexError ''list index out of range'')"
| "del_path [k] cfg =
     (if k \<in> fst ` set cfg then Inr (AList.delete k cfg) else Inl (KeyError k))"
| "del_path (k # ks) cfg =
     (case map_of cfg k of
        None \<Rightarrow> Inl (KeyError k)
      | Some (JDict sub) \<Rightarrow>
          (case del_path ks sub of
             Inl e \<Rightarrow> Inl e
           | Inr sub' \<Rightarrow> Inr (AList.update k (JDict sub') cfg))
      | Some _ \<Rightarrow> Inl (TypeError k))"

fun get_path :: "string list \<Rightarrow> jdict \<Rightarrow> error + jval" where
  "get_path [] cfg = Inl (IndexError ''list index out of range'')"
| "get_path [k] cfg =
     (case map_of cfg k of None \<Rightarrow> Inl (KeyError k) | Some v \<Rightarrow> Inr v)"
| "get_path (k # ks) cfg =
     (case map_of cfg k of
        None \<Rightarrow> Inl (KeyError k)
      | Some (JDict sub) \<Rightarrow> get_path ks sub
      | Some _ \<Rightarrow> Inl (TypeError k))"

text \<open>The \<^verbatim>\<open>while len(keys) > 0\<close> loop: delete the containers that the deletion left
  empty, from the innermost outwards, and stop at the first one that is not empty.\<close>

function prune :: "string list \<Rightarrow> jdict \<Rightarrow> error + jdict" where
  "prune keys cfg =
     (if length keys > 0 then
        (case get_path keys cfg of
           Inl e \<Rightarrow> Inl e
         | Inr b \<Rightarrow>
             (case py_len b of
                Inl e \<Rightarrow> Inl e
              | Inr n \<Rightarrow>
                  if n = 0 then
                    (case del_path keys cfg of
                       Inl e \<Rightarrow> Inl e
                     | Inr cfg' \<Rightarrow> prune (butlast keys) cfg')
                  else Inr cfg))
      else Inr cfg)"
  by pat_completeness auto
termination
  by (relation "measure (\<lambda>(keys, cfg). length keys)") auto

declare prune.simps [simp del]

text \<open>The body of \<^verbatim>\<open>for key in new_flattened_data\<close>, for a key and its value
  \<^verbatim>\<open>new_flattened_data[key]\<close>, and the loop.\<close>

definition diff_step :: "jdict \<Rightarrow> string \<Rightarrow> jval \<Rightarrow> jdict \<Rightarrow> error + jdict" where
  "diff_step old_flattened_data key nv cfg =
     (if (case map_of old_flattened_data key of None \<Rightarrow> False | Some ov \<Rightarrow> py_eq ov nv)
      then
        (let keys = split CHR ''/'' key
         in case del_path keys cfg of
              Inl e \<Rightarrow> Inl e
            | Inr cfg' \<Rightarrow> prune (butlast keys) cfg')
      else Inr cfg)"

fun diff_loop :: "jdict \<Rightarrow> jdict \<Rightarrow> jdict \<Rightarrow> error + jdict" where
  "diff_loop old_flattened_data [] cfg = Inr cfg"
| "diff_loop old_flattened_data ((key, nv) # rest) cfg =
     (case diff_step old_flattened_data key nv cfg of
        Inl e \<Rightarrow> Inl e
      | Inr cfg' \<Rightarrow> diff_loop old_flattened_data rest cfg')"

definition diff_config :: "preset \<Rightarrow> jdict \<Rightarrow> error + jdict" where
  "diff_config self cfg =
     (let new_flattened_data = flatten cfg
      in case config (attrs self) of
           None \<Rightarrow> Inl (AttributeError ''flatten'')
         | Some c \<Rightarrow> diff_loop (flatten c) new_flattened_data cfg)"

subsection \<open>Compose engine\<close>

text \<open>
  \<^verbatim>\<open>_deep_update(d, u)\<close>: \<open>u\<close> is a mapping, \<open>d\<close> is whatever the caller passes
  (\<^verbatim>\<open>d.get(k, {})\<close> in the recursive call). Only the overlay value is tested with
  \<^verbatim>\<open>isinstance(v, collections.Mapping)\<close>. On a \<open>d\<close> that is not a dictionary,
  \<^verbatim>\<open>d.get\<close> raises \<^verbatim>\<open>AttributeError\<close> and \<^verbatim>\<open>d[k] = v\<close> raises \<^verbatim>\<open>TypeError\<close>.
\<close>

fun deep_update :: "jval \<Rightarrow> jdict \<Rightarrow> error + jval" where
  "deep_update d [] = Inr d"
| "deep_update d ((k, v) # u) =
     (case v of
        JDict vu \<Rightarrow>
          (case d of
             JDict dk \<Rightarrow>
               (case deep_update (case map_of dk k of None \<Rightarrow> JDict [] | Some x \<Rightarrow> x) vu of
                  Inl e \<Rightarrow> Inl e
                | Inr r \<Rightarrow> deep_update (JDict (AList.update k r dk)) u)
           | _ \<Rightarrow> Inl (AttributeError ''get''))
      | _ \<Rightarrow>
          (case d of
             JDict dk \<Rightarrow> deep_update (JDict (AList.update k v dk)) u
           | _ \<Rightarrow> Inl (TypeError ''object does not support item assignment'')))"

fun compose_config :: "preset \<Rightarrow> error + jval" where
  "compose_config (Preset a b) =
     (case data_config (data a) of
        None \<Rightarrow> Inl (KeyError ''config'')
      | Some c \<Rightarrow>
          (case b of
             None \<Rightarrow> Inr (JDict c)
           | Some bp \<Rightarrow>
               (case compose_config bp of
                  Inl e \<Rightarrow> Inl e
                | Inr bc \<Rightarrow> deep_update bc c)))"

subsection \<open>Naming and construction from data\<close>

definition endswith :: "string \<Rightarrow> string \<Rightarrow> bool" where
  "endswith s t = (length t \<le> length s \<and> drop (length s - length t) s = t)"

text \<open>
  \<^verbatim>\<open>_generate_name\<close>: the name and the preset after the call (\<^verbatim>\<open>data['name']\<close> is
  written). \<^verbatim>\<open>name is ""\<close> compares identities; CPython has one empty string object, so
  the test is \<open>n = []\<close>.
\<close>

definition generate_name :: "(jval \<Rightarrow> string) \<Rightarrow> preset \<Rightarrow> error + (string \<times> preset)" where
  "generate_name pystr self =
     (let a = attrs self;
          n0 = (case base_preset self of
                  None \<Rightarrow> []
                | Some b \<Rightarrow>
                    (case base_preset b of
                       None \<Rightarrow> []
                     | Some _ \<Rightarrow> name (attrs b) @ '': ''))
      in case config a of
           None \<Rightarrow> Inl (AttributeError ''flatten'')
         | Some c \<Rightarrow>
             (let n1 = foldl (\<lambda>n (key, v). n @ key @ '': '' @ pystr v @ '' - '') n0 (flatten c);
                  n2 = (if endswith n1 '' - '' then take (length n1 - 3) n1
                        else if n1 = [] then ''empty''
                        else n1)
              in Inr (n2, Preset (a\<lparr>data := (data a)\<lparr>data_name := Some n2\<rparr>\<rparr>) (base_preset self))))"

text \<open>
  \<^verbatim>\<open>set_data\<close>. \<^verbatim>\<open>str(uuid.uuid4())\<close> and \<^verbatim>\<open>datetime.now().timestamp()\<close> are the
  parameters \<open>new_uuid\<close> and \<open>now\<close>. \<^verbatim>\<open>datetime.datetime.fromtimestamp\<close> is the parameter
  \<open>fromtimestamp\<close>: it raises on a timestamp outside the range of the platform, and then
  \<^verbatim>\<open>set_data\<close> raises, after the name has been set. A datetime is kept as its timestamp.
\<close>

definition set_data ::
  "(jval \<Rightarrow> string) \<Rightarrow> string \<Rightarrow> rat \<Rightarrow> (rat \<Rightarrow> error + rat) \<Rightarrow> preset \<Rightarrow> data
     \<Rightarrow> error + preset" where
  "set_data pystr new_uuid now fromtimestamp self new_data =
     (let u = (case data_uuid new_data of None \<Rightarrow> new_uuid | Some x \<Rightarrow> x);
          t = (case data_creation_time new_data of None \<Rightarrow> now | Some x \<Rightarrow> x);
          d2 = new_data\<lparr>data_uuid := Some u, data_creation_time := Some t\<rparr>;
          r3 = (case base_preset self of
                  None \<Rightarrow> Inr d2
                | Some b \<Rightarrow>
                    (case data_config d2 of
                       None \<Rightarrow> Inl (KeyError ''config'')
                     | Some c \<Rightarrow>
                         (case diff_config b c of
                            Inl e \<Rightarrow> Inl e
                          | Inr c' \<Rightarrow> Inr (d2\<lparr>data_config := Some c'\<rparr>))))
      in case r3 of
           Inl e \<Rightarrow> Inl e
         | Inr d3 \<Rightarrow>
             (case data_config d3 of
                None \<Rightarrow> Inl (KeyError ''config'')
              | Some c \<Rightarrow>
                  (let s1 = Preset ((attrs self)\<lparr>data := d3, config := Some c\<rparr>) (base_preset self)
                   in case (case data_name d3 of
                              Some n \<Rightarrow> Inr (n, s1)
                            | None \<Rightarrow> generate_name pystr s1) of
                        Inl e \<Rightarrow> Inl e
                      | Inr (n, s2) \<Rightarrow>
                          (case fromtimestamp t of
                             Inl e \<Rightarrow> Inl e
                           | Inr ct \<Rightarrow>
                               Inr (Preset ((attrs s2)\<lparr>name := n, uuid := u, creation_time := ct,
                                        abstract := (case data_abstract d3 of
                                                       None \<Rightarrow> False
                                                     | Some x \<Rightarrow> py_bool x)\<rparr>)
                                      (base_preset s2))))))"

text \<open>\<^verbatim>\<open>Preset(data, base_preset, file)\<close>.\<close>

definition init ::
  "(jval \<Rightarrow> string) \<Rightarrow> string \<Rightarrow> rat \<Rightarrow> (rat \<Rightarrow> error + rat) \<Rightarrow> data option
     \<Rightarrow> preset option \<Rightarrow> string option \<Rightarrow> error + preset" where
  "init pystr new_uuid now fromtimestamp dat base f =
     (case dat of
        Some d \<Rightarrow> set_data pystr new_uuid now fromtimestamp (init_no_data base f) d
      | None \<Rightarrow> Inr (init_no_data base f))"


section \<open>Notions used to state the properties\<close>

text \<open>
  The inheritance chain of a preset, nearest first. A lookup in a preset's own block is a
  miss when it raises \<^verbatim>\<open>NotFoundError\<close>; \<open>nearest\<close> is the first preset of the chain
  whose own block does not miss the name.
\<close>

fun chain :: "preset \<Rightarrow> preset list" where
  "chain (Preset a b) = Preset a b # (case b of None \<Rightarrow> [] | Some bp \<Rightarrow> chain bp)"

definition is_miss :: "error + jval \<Rightarrow> bool" where
  "is_miss r = (case r of Inl (NotFoundError m) \<Rightarrow> True | _ \<Rightarrow> False)"

definition nearest ::
  "(vtype \<Rightarrow> jval \<Rightarrow> jval option) \<Rightarrow> preset \<Rightarrow> string \<Rightarrow> vtype \<Rightarrow> preset option" where
  "nearest conv p nm T = find (\<lambda>q. \<not> is_miss (own_lookup conv q nm T)) (chain p)"

subsection \<open>Well-formed configurations and their leaves\<close>

text \<open>
  \<open>py_wf v\<close>: every dictionary inside \<open>v\<close> has distinct keys, as every Python dictionary
  has, and no list or dictionary inside \<open>v\<close> has NaN as an element (\<open>v\<close> itself may be
  NaN). \<open>wf_dict c\<close>: along the nesting of dictionaries that \<open>flatten\<close> walks, the keys of
  each dictionary are distinct and contain no \<^verbatim>\<open>'/'\<close>, and the leaves are \<open>py_wf\<close>. The
  configurations excluded are those with a \<^verbatim>\<open>'/'\<close> inside a key and those with a NaN
  inside a list.
\<close>

fun py_wf :: "jval \<Rightarrow> bool"
  and py_wf_list :: "jval list \<Rightarrow> bool"
  and py_wf_items :: "jdict \<Rightarrow> bool" where
  "py_wf (JList xs) = py_wf_list xs"
| "py_wf (JDict kvs) = (distinct (map fst kvs) \<and> py_wf_items kvs)"
| "py_wf JNone = True"
| "py_wf (JBool b) = True"
| "py_wf (JInt i) = True"
| "py_wf (JFloat r) = True"
| "py_wf (JStr s) = True"
| "py_wf_list [] = True"
| "py_wf_list (x # xs) = (x \<noteq> JFloat NaN \<and> py_wf x \<and> py_wf_list xs)"
| "py_wf_items [] = True"
| "py_wf_items ((k, v) # kvs) = (v \<noteq> JFloat NaN \<and> py_wf v \<and> py_wf_items kvs)"

fun wf_dict :: "jdict \<Rightarrow> bool" where
  "wf_dict [] = True"
| "wf_dict ((k, v) # kvs) =
     (CHR ''/'' \<notin> set k \<and> k \<notin> fst ` set kvs
      \<and> (case v of JDict sub \<Rightarrow> wf_dict sub | _ \<Rightarrow> py_wf v)
      \<and> wf_dict kvs)"

text \<open>\<open>leaf_in ks v\<close> is the leaf (a value that is not a dictionary) reached from \<open>v\<close>
  by the keys \<open>ks\<close>, if there is one.\<close>

fun leaf_in :: "string list \<Rightarrow> jval \<Rightarrow> jval option" where
  "leaf_in [] v = (case v of JDict sub \<Rightarrow> None | _ \<Rightarrow> Some v)"
| "leaf_in (k # ks) v =
     (case v of
        JDict sub \<Rightarrow> (case map_of sub k of None \<Rightarrow> None | Some x \<Rightarrow> leaf_in ks x)
      | _ \<Rightarrow> None)"

text \<open>\<open>hit old p v\<close> is the test of \<^verbatim>\<open>diff_config\<close>:
  \<^verbatim>\<open>p in old and old[p] == v\<close>.\<close>

definition hit :: "jdict \<Rightarrow> string \<Rightarrow> jval \<Rightarrow> bool" where
  "hit old p v = (case map_of old p of None \<Rightarrow> False | Some ov \<Rightarrow> py_eq ov v)"

text \<open>\<open>wfv\<close> is \<open>wf_dict\<close> on a value: a dictionary is well formed as a configuration,
  any other value as a Python value. \<open>merged dk u mc\<close> relates the leaves of the result
  \<open>mc\<close> of a deep update to those of the existing tree \<open>dk\<close> and of the overlay \<open>u\<close>:
  every leaf of the overlay is a leaf of the result, every leaf of the result comes from
  one of the two, and the leaves of \<open>dk\<close> under keys the overlay does not have stay.\<close>

definition wfv :: "jval \<Rightarrow> bool" where
  "wfv v = (case v of JDict sub \<Rightarrow> wf_dict sub | _ \<Rightarrow> py_wf v)"

definition merged :: "jdict \<Rightarrow> jdict \<Rightarrow> jdict \<Rightarrow> bool" where
  "merged dk u mc \<longleftrightarrow>
     wf_dict mc
     \<and> (\<forall>qs w. leaf_in qs (JDict u) = Some w \<longrightarrow> leaf_in qs (JDict mc) = Some w)
     \<and> (\<forall>qs w. leaf_in qs (JDict mc) = Some w \<longrightarrow>
           leaf_in qs (JDict u) = Some w \<or> leaf_in qs (JDict dk) = Some w)
     \<and> (\<forall>q rest w. leaf_in (q # rest) (JDict dk) = Some w \<longrightarrow> q \<notin> fst ` set u \<longrightarrow>
           leaf_in (q # rest) (JDict mc) = Some w)"

text \<open>\<open>no_empty c\<close>: no dictionary nested in \<open>c\<close> is empty (\<open>c\<close> itself may be).
  \<open>same_tree a b\<close>: \<open>a\<close> and \<open>b\<close> are the same tree of dictionaries up to the order of
  the keys, with identical leaves; on dictionaries this is Python's equality of
  dictionaries with the leaves compared as values.\<close>

fun no_empty :: "jdict \<Rightarrow> bool" where
  "no_empty [] = True"
| "no_empty ((k, v) # kvs) =
     ((case v of JDict sub \<Rightarrow> sub \<noteq> [] \<and> no_empty sub | _ \<Rightarrow> True) \<and> no_empty kvs)"

fun same_tree :: "jval \<Rightarrow> jval \<Rightarrow> bool"
  and same_items :: "jdict \<Rightarrow> jdict \<Rightarrow> bool" where
  "same_tree (JDict xs) b =
     (case b of JDict ys \<Rightarrow> length xs = length ys \<and> same_items xs ys | _ \<Rightarrow> False)"
| "same_tree JNone b = (b = JNone)"
| "same_tree (JBool x) b = (b = JBool x)"
| "same_tree (JInt i) b = (b = JInt i)"
| "same_tree (JFloat r) b = (b = JFloat r)"
| "same_tree (JStr s) b = (b = JStr s)"
| "same_tree (JList xs) b = (b = JList xs)"
| "same_items [] ys = True"
| "same_items ((k, v) # xs) ys =
     (case map_of ys k of None \<Rightarrow> False | Some w \<Rightarrow> same_tree v w \<and> same_items xs ys)"

subsection \<open>Example presets\<close>

text \<open>
  Instances of the parameters for the examples: \<open>str_ex\<close> prints \<^verbatim>\<open>None\<close>, booleans,
  integers and strings as \<^verbatim>\<open>str\<close> does, \<open>conv_ex\<close> converts a value of the requested
  type to itself, a boolean to an integer and an integer to a float, and \<open>fromts_ex\<close>
  accepts the timestamps of the years 1 to 9999.
\<close>

definition fromts_ex :: "rat \<Rightarrow> error + rat" where
  "fromts_ex t =
     (if - 62135596800 \<le> t \<and> t < 253402300800 then Inr t
      else Inl (ValueError ''year is out of range''))"

function str_nat :: "nat \<Rightarrow> string" where
  "str_nat n =
     (if n < 10 then [''0123456789'' ! n]
      else str_nat (n div 10) @ [''0123456789'' ! (n mod 10)])"
  by pat_completeness auto
termination
  by (relation "measure id") auto

declare str_nat.simps [simp del]

definition str_ex :: "jval \<Rightarrow> string" where
  "str_ex v =
     (case v of
        JNone \<Rightarrow> ''None''
      | JBool b \<Rightarrow> (if b then ''True'' else ''False'')
      | JInt i \<Rightarrow> (if i < 0 then ''-'' @ str_nat (nat (- i)) else str_nat (nat i))
      | JStr s \<Rightarrow> s
      | _ \<Rightarrow> ''?'')"

definition conv_ex :: "vtype \<Rightarrow> jval \<Rightarrow> jval option" where
  "conv_ex T v =
     (case (T, v) of
        (TInt, JInt i) \<Rightarrow> Some (JInt i)
      | (TInt, JBool b) \<Rightarrow> Some (JInt (if b then 1 else 0))
      | (TString, JStr s) \<Rightarrow> Some (JStr s)
      | (TFloat, JFloat r) \<Rightarrow> Some (JFloat r)
      | (TFloat, JInt i) \<Rightarrow> Some (JFloat (Fin (of_int i)))
      | (TBool, JBool b) \<Rightarrow> Some (JBool b)
      | (TList, JList xs) \<Rightarrow> Some (JList xs)
      | _ \<Rightarrow> None)"

definition mk_preset :: "string \<Rightarrow> jdict \<Rightarrow> preset option \<Rightarrow> preset" where
  "mk_preset n c b =
     Preset \<lparr>prefix = [], preset_file = None, try_number = 0, printed_settings = {},
             logger = None,
             data = \<lparr>data_name = Some n, data_uuid = Some ''u'', data_creation_time = Some 0,
                      data_config = Some c, data_abstract = None\<rparr>,
             name = n, uuid = ''u'', creation_time = 0, config = Some c, abstract = False\<rparr> b"

definition ex_root :: preset where
  "ex_root = mk_preset ''root''
     [(''db'', JDict [(''port'', JInt 5432), (''host'', JStr ''localhost'')]),
      (''debug'', JBool False), (''retries'', JInt 0), (''tags'', JList [JStr ''x''])] None"

definition ex_mid :: preset where
  "ex_mid = mk_preset ''mid'' [(''db'', JDict [(''port'', JInt 6000)])] (Some ex_root)"

definition ex_leaf :: preset where
  "ex_leaf = mk_preset ''leaf'' [(''lr'', JInt 3)] (Some ex_mid)"

definition ex_logged :: preset where
  "ex_logged = set_logger ex_leaf (Some [])"

definition ex_logged_once :: preset where
  "ex_logged_once =
     snd (get_value_with_fallback conv_ex str_ex ex_logged ''db/port'' None TInt)"

definition ex_cand :: jdict where
  "ex_cand = [(''db'', JDict [(''port'', JInt 6000)]), (''lr'', JInt 3)]"

definition ex_redundant :: jdict where
  "ex_redundant = [(''debug'', JBool False), (''lr'', JInt 3)]"

definition ex_raw :: "jdict \<Rightarrow> data" where
  "ex_raw c = \<lparr>data_name = None, data_uuid = None, data_creation_time = None,
               data_config = Some c, data_abstract = None\<rparr>"

definition ex_scalar_base :: preset where
  "ex_scalar_base = mk_preset ''scalar'' [(''a'', JInt 5)] None"

definition ex_clash :: preset where
  "ex_clash = mk_preset ''clash'' [(''a'', JDict [(''b'', JInt 1)])] (Some ex_scalar_base)"

definition ex_empty_overlay :: preset where
  "ex_empty_overlay = mk_preset ''hollow'' [(''a'', JDict [])] (Some ex_scalar_base)"

definition ex_deep :: preset where
  "ex_deep = mk_preset ''deep''
     [(''a'', JDict [(''b'', JDict [(''c'', JInt 1)])]), (''x'', JInt 2)] None"

definition ex_overlay :: jdict where
  "ex_overlay = [(''x'', JInt 5), (''lr'', JInt 3)]"

definition ex_nan_base :: preset where
  "ex_nan_base = mk_preset ''nan'' [(''x'', JFloat NaN)] None"

section \<open>Properties\<close>

lemmas ex_defs = ex_root_def ex_mid_def ex_leaf_def mk_preset_def own_lookup_def cb_get_def
  flatten_def nearest_def conv_ex_def is_miss_def


subsection \<open>Resolution along the chain\<close>

lemma is_miss_simps [simp]:
  "is_miss (Inl (NotFoundError m))" "\<not> is_miss (Inl (TypeError m))"
  "\<not> is_miss (Inl (KeyError m))" "\<not> is_miss (Inl (AttributeError m))"
  "\<not> is_miss (Inl (IndexError m))" "\<not> is_miss (Inl (ValueError m))" "\<not> is_miss (Inr v)"
  by (simp_all add: is_miss_def)

lemma is_missE: "is_miss r \<Longrightarrow> \<exists>m. r = Inl (NotFoundError m)"
  by (auto simp: is_miss_def split: sum.splits error.splits)

text \<open>With the block modelled from the spec, a preset misses a name exactly when it
  has a block and the name is not a path of its flattening.\<close>

lemma is_miss_own_lookup:
  "is_miss (own_lookup conv q nm T) \<longleftrightarrow>
     (\<exists>c. config (attrs q) = Some c \<and> map_of (flatten c) nm = None)"
  by (auto simp: own_lookup_def cb_get_def split: option.splits)

lemma nearest_Preset:
  "nearest conv (Preset a b) nm T =
     (if is_miss (own_lookup conv (Preset a b) nm T)
      then (case b of None \<Rightarrow> None | Some bp \<Rightarrow> nearest conv bp nm T)
      else Some (Preset a b))"
  by (simp add: nearest_def split: option.splits)

lemma nearest_not_miss:
  "nearest conv p nm T = Some q \<Longrightarrow> \<not> is_miss (own_lookup conv q nm T)"
  unfolding nearest_def by (auto simp: find_Some_iff)

lemma nearest_first:
  "nearest conv p nm T = Some q \<Longrightarrow>
     \<exists>i < length (chain p). chain p ! i = q \<and>
        (\<forall>j < i. is_miss (own_lookup conv (chain p ! j) nm T))"
  unfolding nearest_def by (auto simp: find_Some_iff)

lemma get_value_not_miss:
  "\<not> is_miss (own_lookup conv (Preset a b) nm T) \<Longrightarrow>
     get_value conv (Preset a b) nm T = own_lookup conv (Preset a b) nm T"
  by (auto simp: is_miss_def split: sum.splits error.splits)

lemma get_value_miss:
  "is_miss (own_lookup conv (Preset a b) nm T) \<Longrightarrow>
     get_value conv (Preset a b) nm T =
       (case b of
          None \<Rightarrow> own_lookup conv (Preset a b) nm T
        | Some bp \<Rightarrow> get_value conv bp nm T)"
  by (auto dest!: is_missE split: option.splits)

lemma get_value_nearest:
  "nearest conv p nm T = Some q \<Longrightarrow> get_value conv p nm T = own_lookup conv q nm T"
proof (induction conv p nm T rule: get_value.induct)
  case (1 conv a b nm T)
  show ?case
  proof (cases "is_miss (own_lookup conv (Preset a b) nm T)")
    case False
    with "1.prems" have "q = Preset a b" by (simp add: nearest_Preset)
    with False show ?thesis using get_value_not_miss[OF False] by simp
  next
    case True
    then obtain m where m: "own_lookup conv (Preset a b) nm T = Inl (NotFoundError m)"
      by (auto dest: is_missE)
    from True "1.prems" obtain bp where b: "b = Some bp" and n: "nearest conv bp nm T = Some q"
      by (auto simp: nearest_Preset split: option.splits)
    from "1.IH"[OF m refl b n] True b show ?thesis
      by (simp add: get_value_miss del: get_value.simps)
  qed
qed

lemma get_value_no_nearest:
  "nearest conv p nm T = None \<Longrightarrow> \<exists>m. get_value conv p nm T = Inl (NotFoundError m)"
proof (induction conv p nm T rule: get_value.induct)
  case (1 conv a b nm T)
  from "1.prems" have miss: "is_miss (own_lookup conv (Preset a b) nm T)"
    by (simp add: nearest_Preset split: if_splits)
  then obtain m where m: "own_lookup conv (Preset a b) nm T = Inl (NotFoundError m)"
    by (auto dest: is_missE)
  show ?case
  proof (cases b)
    case None
    with m show ?thesis by simp
  next
    case (Some bp)
    with "1.prems" miss have "nearest conv bp nm T = None" by (simp add: nearest_Preset)
    from "1.IH"[OF m refl Some this] m Some show ?thesis by simp
  qed
qed

lemma gvwf_resolved:
  assumes "nearest conv p (prefix (attrs p) @ K) T = Some q"
  shows "get_value_with_fallback conv pystr p K fb T =
           get_value_with_fallback conv pystr p K None T"
    and "fst (get_value_with_fallback conv pystr p K fb T) =
           own_lookup conv q (prefix (attrs p) @ K) T"
proof -
  from assms have g: "get_value conv p (prefix (attrs p) @ K) T =
      own_lookup conv q (prefix (attrs p) @ K) T"
    by (rule get_value_nearest)
  from assms have n: "\<not> is_miss (own_lookup conv q (prefix (attrs p) @ K) T)"
    by (rule nearest_not_miss)
  from g n show "get_value_with_fallback conv pystr p K fb T =
           get_value_with_fallback conv pystr p K None T"
    by (auto simp: get_value_with_fallback_def Let_def is_miss_def
             split: sum.splits error.splits option.splits)
  from g n show "fst (get_value_with_fallback conv pystr p K fb T) =
           own_lookup conv q (prefix (attrs p) @ K) T"
    by (auto simp: get_value_with_fallback_def Let_def is_miss_def
             split: sum.splits error.splits option.splits)
qed

lemma gvwf_unresolved:
  assumes "nearest conv p (prefix (attrs p) @ K) T = None"
  shows "fst (get_value_with_fallback conv pystr p K (Some f) T) =
           get_value conv p (prefix (attrs p) @ f) T"
    and "\<exists>m. get_value_with_fallback conv pystr p K None T = (Inl (NotFoundError m), p)"
proof -
  from get_value_no_nearest[OF assms] obtain m
    where m: "get_value conv p (prefix (attrs p) @ K) T = Inl (NotFoundError m)" by blast
  from m show "fst (get_value_with_fallback conv pystr p K (Some f) T) =
      get_value conv p (prefix (attrs p) @ f) T"
    by (auto simp: get_value_with_fallback_def Let_def
             split: sum.splits error.splits option.splits)
  from m show "\<exists>m. get_value_with_fallback conv pystr p K None T = (Inl (NotFoundError m), p)"
    by (auto simp: get_value_with_fallback_def Let_def
             split: sum.splits error.splits option.splits)
qed

lemma gvwf_error_state:
  "fst (get_value_with_fallback conv pystr p K fb T) = Inl e \<Longrightarrow>
     get_value_with_fallback conv pystr p K fb T = (Inl e, p)"
  by (auto simp: get_value_with_fallback_def Let_def
           split: sum.splits error.splits option.splits if_splits)

text \<open>The result of a getter depends on the preset only through its block, its base
  and the prefixed names.\<close>

lemma gvwf_fst_cong:
  assumes "config (attrs p) = config (attrs p')" "base_preset p = base_preset p'"
    and "prefix (attrs p) @ K = prefix (attrs p') @ K'"
    and "map_option (\<lambda>f. prefix (attrs p) @ f) fb = map_option (\<lambda>f. prefix (attrs p') @ f) fb'"
  shows "fst (get_value_with_fallback conv pystr p K fb T) =
         fst (get_value_with_fallback conv pystr p' K' fb' T)"
proof -
  obtain a b where p: "p = Preset a b" by (cases p)
  obtain a' b' where p': "p' = Preset a' b'" by (cases p')
  from assms p p' have gv: "\<And>nm. get_value conv p nm T = get_value conv p' nm T"
    by (simp add: own_lookup_def)
  have r: "\<And>p K fb. fst (get_value_with_fallback conv pystr p K fb T) =
     (case get_value conv p (prefix (attrs p) @ K) T of
        Inl (NotFoundError m) \<Rightarrow>
          (case map_option (\<lambda>f. prefix (attrs p) @ f) fb of
             Some fb \<Rightarrow> get_value conv p fb T
           | None \<Rightarrow> Inl (NotFoundError m))
      | Inl e \<Rightarrow> Inl e
      | Inr v \<Rightarrow> Inr v)"
    by (auto simp: get_value_with_fallback_def Let_def
             split: sum.splits error.splits option.splits)
  have gvf: "(\<lambda>nm. get_value conv p nm T) = (\<lambda>nm. get_value conv p' nm T)"
    using gv by auto
  show ?thesis
    by (simp add: r gv gvf assms(3) assms(4)
             cong: sum.case_cong error.case_cong option.case_cong)
qed







text \<open>
  C9. When the nearest preset of the chain that holds the prefixed name holds a raw value
  that the block cannot convert to the requested type, the \<^verbatim>\<open>TypeError\<close> of the block is
  the result of the chain walk and of the getter, whatever the fallback, and the preset
  is unchanged. The same holds on the fallback path: when the primary name is held
  nowhere and the nearest holder of the prefixed fallback name cannot convert its value,
  the block's \<^verbatim>\<open>TypeError\<close> is the result.
\<close>

theorem C9_type_error_propagates:
  "(nearest conv p (prefix (attrs p) @ K) T = Some q \<and> config (attrs q) = Some c
      \<and> map_of (flatten c) (prefix (attrs p) @ K) = Some raw \<and> conv T raw = None \<longrightarrow>
        cb_get conv T c (prefix (attrs p) @ K) = Inl (TypeError (prefix (attrs p) @ K))
        \<and> get_value conv p (prefix (attrs p) @ K) T = cb_get conv T c (prefix (attrs p) @ K)
        \<and> get_value_with_fallback conv pystr p K fb T =
            (cb_get conv T c (prefix (attrs p) @ K), p))
   \<and> (nearest conv p (prefix (attrs p) @ K) T = None
      \<and> nearest conv p (prefix (attrs p) @ f) T = Some q \<and> config (attrs q) = Some c
      \<and> map_of (flatten c) (prefix (attrs p) @ f) = Some raw \<and> conv T raw = None \<longrightarrow>
        cb_get conv T c (prefix (attrs p) @ f) = Inl (TypeError (prefix (attrs p) @ f))
        \<and> get_value_with_fallback conv pystr p K (Some f) T =
            (cb_get conv T c (prefix (attrs p) @ f), p))"
proof -
  have cb: "cb_get conv T c nm = Inl (TypeError nm)"
    if "map_of (flatten c) nm = Some raw" "conv T raw = None" for nm
    using that by (simp add: cb_get_def)
  have 1: "get_value conv p (prefix (attrs p) @ K) T = cb_get conv T c (prefix (attrs p) @ K)
        \<and> get_value_with_fallback conv pystr p K fb T =
            (cb_get conv T c (prefix (attrs p) @ K), p)"
    if n: "nearest conv p (prefix (attrs p) @ K) T = Some q" and c: "config (attrs q) = Some c"
      and r: "map_of (flatten c) (prefix (attrs p) @ K) = Some raw" "conv T raw = None"
  proof -
    have o: "own_lookup conv q (prefix (attrs p) @ K) T = cb_get conv T c (prefix (attrs p) @ K)"
      using c by (simp add: own_lookup_def)
    from gvwf_resolved(2)[OF n, of pystr fb] o cb[OF r]
    have "fst (get_value_with_fallback conv pystr p K fb T) =
        Inl (TypeError (prefix (attrs p) @ K))" by simp
    from gvwf_error_state[OF this] get_value_nearest[OF n] o cb[OF r] show ?thesis by simp
  qed
  have 2: "get_value_with_fallback conv pystr p K (Some f) T =
            (cb_get conv T c (prefix (attrs p) @ f), p)"
    if k: "nearest conv p (prefix (attrs p) @ K) T = None"
      and n: "nearest conv p (prefix (attrs p) @ f) T = Some q" and c: "config (attrs q) = Some c"
      and r: "map_of (flatten c) (prefix (attrs p) @ f) = Some raw" "conv T raw = None"
  proof -
    have o: "own_lookup conv q (prefix (attrs p) @ f) T = cb_get conv T c (prefix (attrs p) @ f)"
      using c by (simp add: own_lookup_def)
    from gvwf_unresolved(1)[OF k, of pystr f] get_value_nearest[OF n] o cb[OF r]
    have "fst (get_value_with_fallback conv pystr p K (Some f) T) =
        Inl (TypeError (prefix (attrs p) @ f))" by simp
    from gvwf_error_state[OF this] cb[OF r] show ?thesis by simp
  qed
  from 1 2 cb show ?thesis by blast
qed

theorem C9_type_error_propagates_witness:
  "nearest conv_ex ex_leaf ''db/port'' TString = Some ex_mid
   \<and> config (attrs ex_mid) = Some [(''db'', JDict [(''port'', JInt 6000)])]
   \<and> map_of (flatten [(''db'', JDict [(''port'', JInt 6000)])]) ''db/port'' = Some (JInt 6000)
   \<and> conv_ex TString (JInt 6000) = None
   \<and> get_value_with_fallback conv_ex str_ex ex_leaf ''db/port'' (Some ''db/host'') TString =
       (Inl (TypeError ''db/port''), ex_leaf)
   \<and> nearest conv_ex ex_leaf ''rate'' TString = None
   \<and> get_value_with_fallback conv_ex str_ex ex_leaf ''rate'' (Some ''db/port'') TString =
       (Inl (TypeError ''db/port''), ex_leaf)"
proof -
  have n: "nearest conv_ex ex_leaf ''db/port'' TString = Some ex_mid"
    "nearest conv_ex ex_leaf ''rate'' TString = None"
    "config (attrs ex_mid) = Some [(''db'', JDict [(''port'', JInt 6000)])]"
    "map_of (flatten [(''db'', JDict [(''port'', JInt 6000)])]) ''db/port'' = Some (JInt 6000)"
    "conv_ex TString (JInt 6000) = None"
    by (simp_all add: ex_defs)
  have pre: "prefix (attrs ex_leaf) = []" by (simp add: ex_defs)
  show ?thesis
    using C9_type_error_propagates[of conv_ex ex_leaf "''db/port''" TString ex_mid
        "[(''db'', JDict [(''port'', JInt 6000)])]" "JInt 6000" str_ex "Some ''db/host''" "''db/port''"]
      C9_type_error_propagates[of conv_ex ex_leaf "''rate''" TString ex_mid
        "[(''db'', JDict [(''port'', JInt 6000)])]" "JInt 6000" str_ex None "''db/port''"]
    by (simp add: n pre)
qed


text \<open>
  C7. Prefix scoping. On the preset \<open>get_with_prefix p s\<close> a getter called with the name
  \<open>k\<close> has the result (value or error) that the same getter has on \<open>p\<close> with the name
  \<open>s + "/" + k\<close>; with a fallback \<open>f\<close> the corresponding call on \<open>p\<close> has the fallback
  \<open>s + "/" + f\<close>. The clone has the block, the base and the raw record of \<open>p\<close>, and its
  prefix is \<open>prefix p + s + "/"\<close>.
\<close>

theorem C7_prefix_scoping:
  "fst (get_value_with_fallback conv pystr (get_with_prefix p s) k fb T) =
     fst (get_value_with_fallback conv pystr p (s @ ''/'' @ k)
            (map_option (\<lambda>f. s @ ''/'' @ f) fb) T)
   \<and> fst (get_int conv pystr (get_with_prefix p s) k None) =
       fst (get_int conv pystr p (s @ ''/'' @ k) None)
   \<and> fst (get_string conv pystr (get_with_prefix p s) k None) =
       fst (get_string conv pystr p (s @ ''/'' @ k) None)
   \<and> fst (get_float conv pystr (get_with_prefix p s) k None) =
       fst (get_float conv pystr p (s @ ''/'' @ k) None)
   \<and> fst (get_bool conv pystr (get_with_prefix p s) k None) =
       fst (get_bool conv pystr p (s @ ''/'' @ k) None)
   \<and> fst (get_list conv pystr (get_with_prefix p s) k None) =
       fst (get_list conv pystr p (s @ ''/'' @ k) None)
   \<and> config (attrs (get_with_prefix p s)) = config (attrs p)
   \<and> base_preset (get_with_prefix p s) = base_preset p
   \<and> data (attrs (get_with_prefix p s)) = data (attrs p)
   \<and> prefix (attrs (get_with_prefix p s)) = prefix (attrs p) @ s @ ''/''"
proof -
  have a: "config (attrs (get_with_prefix p s)) = config (attrs p)"
    and b: "base_preset (get_with_prefix p s) = base_preset p"
    and c: "data (attrs (get_with_prefix p s)) = data (attrs p)"
    and d: "prefix (attrs (get_with_prefix p s)) = prefix (attrs p) @ s @ ''/''"
    by (simp_all add: get_with_prefix_def clone_def init_no_data_def Let_def)
  have e: "fst (get_value_with_fallback conv pystr (get_with_prefix p s) k fb' T') =
     fst (get_value_with_fallback conv pystr p (s @ ''/'' @ k)
            (map_option (\<lambda>f. s @ ''/'' @ f) fb') T')" for fb' T'
    by (rule gvwf_fst_cong) (simp_all add: a b d option.map_comp comp_def)
  show ?thesis
    using e[of None] e[of fb T] a b c d
    by (simp add: get_int_def get_string_def get_float_def get_bool_def get_list_def)
qed

theorem C7_prefix_scoping_witness:
  "fst (get_int conv_ex str_ex (get_with_prefix ex_leaf ''db'') ''port'' None) = Inr (JInt 6000)
   \<and> fst (get_int conv_ex str_ex ex_leaf ''db/port'' None) = Inr (JInt 6000)
   \<and> fst (get_int conv_ex str_ex (get_with_prefix ex_leaf ''db'') ''user'' None) =
       Inl (NotFoundError ''db/user'')
   \<and> prefix (attrs (get_with_prefix (get_with_prefix ex_leaf ''db'') ''pool'')) = ''db/pool/''"
proof -
  have v: "fst (get_int conv_ex str_ex ex_leaf ''db/port'' None) = Inr (JInt 6000)"
    "fst (get_int conv_ex str_ex ex_leaf ''db/user'' None) = Inl (NotFoundError ''db/user'')"
    "prefix (attrs ex_leaf) = []"
    by (simp_all add: ex_defs get_int_def get_value_with_fallback_def)
  show ?thesis
    using C7_prefix_scoping[of conv_ex str_ex ex_leaf "''db''" "''port''" None TInt]
      C7_prefix_scoping[of conv_ex str_ex ex_leaf "''db''" "''user''" None TInt]
      C7_prefix_scoping[of conv_ex str_ex "get_with_prefix ex_leaf ''db''" "''pool''" "''x''" None TInt]
    by (simp add: v)
qed

text \<open>
  C10. \<^verbatim>\<open>clone\<close> builds a preset without data and copies \<^verbatim>\<open>name\<close>, \<^verbatim>\<open>config\<close>, \<^verbatim>\<open>data\<close>,
  \<^verbatim>\<open>prefix\<close>, \<^verbatim>\<open>file\<close>, \<^verbatim>\<open>try_number\<close>, \<^verbatim>\<open>uuid\<close> and \<^verbatim>\<open>creation_time\<close>. Whatever the
  original's abstract flag, logger and printed settings, the clone, and so the result
  of \<^verbatim>\<open>get_with_prefix\<close>, is not abstract, has no logger and has printed nothing.
\<close>

theorem C10_clone_resets_abstract_and_logger:
  "abstract (attrs (clone p)) = False
   \<and> logger (attrs (clone p)) = None
   \<and> printed_settings (attrs (clone p)) = {}
   \<and> abstract (attrs (get_with_prefix p s)) = False
   \<and> logger (attrs (get_with_prefix p s)) = None
   \<and> printed_settings (attrs (get_with_prefix p s)) = {}"
  by (simp add: get_with_prefix_def clone_def init_no_data_def Let_def)

subsection \<open>Logging\<close>

lemma gvwf_logged:
  assumes "fst (get_value_with_fallback conv pystr p K fb T) = Inr v"
    and "logger (attrs p) = Some ls"
  shows "get_value_with_fallback conv pystr p K fb T =
     (Inr v,
      if prefix (attrs p) @ K \<in> printed_settings (attrs p) then p
      else Preset ((attrs p)\<lparr>logger := Some (ls @ [''Using '' @ (prefix (attrs p) @ K) @ '' = '' @ pystr v]),
                              printed_settings := insert (prefix (attrs p) @ K) (printed_settings (attrs p))\<rparr>)
             (base_preset p))"
  using assms
  by (auto simp: get_value_with_fallback_def Let_def
           split: sum.splits error.splits option.splits if_splits)

lemma gvwf_silent:
  assumes "prefix (attrs p) @ K \<in> printed_settings (attrs p)"
  shows "snd (get_value_with_fallback conv pystr p K fb T) = p"
  using assms
  by (auto simp: get_value_with_fallback_def Let_def
           split: sum.splits error.splits option.splits if_splits)

lemma gvwf_printed_mono:
  "printed_settings (attrs p) \<subseteq>
     printed_settings (attrs (snd (get_value_with_fallback conv pystr p K fb T)))"
  by (auto simp: get_value_with_fallback_def Let_def
           split: sum.splits error.splits option.splits if_splits)

lemma gvwf_fst_set_logger:
  "fst (get_value_with_fallback conv pystr (set_logger p nl) K fb T) =
   fst (get_value_with_fallback conv pystr p K fb T)"
  by (rule gvwf_fst_cong) (simp_all add: set_logger_def)

text \<open>
  C8. On a preset with a logger, a successful resolution of a name whose prefixed form
  has not been printed appends exactly the line \<open>"Using <name> = <value>"\<close> to the
  logger and records the prefixed name; any later resolution of the same name on the
  resulting preset changes nothing, and so does any resolution of a name already
  recorded; a resolution never removes a recorded name. \<^verbatim>\<open>set_logger\<close> empties the set of printed names and installs the new logger;
  after installing a logger, a successful resolution logs its line again, whatever had
  been printed before.
\<close>

theorem C8_logging_dedup:
  "(logger (attrs p) = Some ls \<and> fst (get_value_with_fallback conv pystr p K fb T) = Inr v
      \<and> prefix (attrs p) @ K \<notin> printed_settings (attrs p) \<longrightarrow>
        logger (attrs (snd (get_value_with_fallback conv pystr p K fb T))) =
          Some (ls @ [''Using '' @ prefix (attrs p) @ K @ '' = '' @ pystr v])
        \<and> printed_settings (attrs (snd (get_value_with_fallback conv pystr p K fb T))) =
            insert (prefix (attrs p) @ K) (printed_settings (attrs p))
        \<and> snd (get_value_with_fallback conv pystr
                 (snd (get_value_with_fallback conv pystr p K fb T)) K fb' T') =
            snd (get_value_with_fallback conv pystr p K fb T))
   \<and> (prefix (attrs p) @ K \<in> printed_settings (attrs p) \<longrightarrow>
        snd (get_value_with_fallback conv pystr p K fb T) = p)
   \<and> printed_settings (attrs p) \<subseteq>
        printed_settings (attrs (snd (get_value_with_fallback conv pystr p K fb T)))
   \<and> printed_settings (attrs (set_logger p new_logger)) = {}
   \<and> logger (attrs (set_logger p new_logger)) = new_logger
   \<and> (fst (get_value_with_fallback conv pystr p K fb T) = Inr v \<longrightarrow>
        fst (get_value_with_fallback conv pystr (set_logger p (Some ls')) K fb T) = Inr v
        \<and> logger (attrs (snd (get_value_with_fallback conv pystr (set_logger p (Some ls')) K fb T))) =
            Some (ls' @ [''Using '' @ prefix (attrs p) @ K @ '' = '' @ pystr v]))"
proof -
  let ?r = "get_value_with_fallback conv pystr p K fb T"
  have 1: "logger (attrs (snd ?r)) = Some (ls @ [''Using '' @ prefix (attrs p) @ K @ '' = '' @ pystr v])
        \<and> printed_settings (attrs (snd ?r)) = insert (prefix (attrs p) @ K) (printed_settings (attrs p))
        \<and> snd (get_value_with_fallback conv pystr (snd ?r) K fb' T') = snd ?r"
    if l: "logger (attrs p) = Some ls" and v: "fst ?r = Inr v"
      and n: "prefix (attrs p) @ K \<notin> printed_settings (attrs p)"
  proof -
    from gvwf_logged[OF v l] n
    have s: "snd ?r =
        Preset ((attrs p)\<lparr>logger := Some (ls @ [''Using '' @ (prefix (attrs p) @ K) @ '' = '' @ pystr v]),
                           printed_settings := insert (prefix (attrs p) @ K) (printed_settings (attrs p))\<rparr>)
          (base_preset p)" by simp
    have "prefix (attrs (snd ?r)) @ K \<in> printed_settings (attrs (snd ?r))"
      by (simp add: s)
    from gvwf_silent[OF this] s show ?thesis by simp
  qed
  have 2: "snd ?r = p" if "prefix (attrs p) @ K \<in> printed_settings (attrs p)"
    using that by (rule gvwf_silent)
  have 3: "printed_settings (attrs (set_logger p new_logger)) = {}
       \<and> logger (attrs (set_logger p new_logger)) = new_logger"
    by (simp add: set_logger_def)
  have 4: "fst (get_value_with_fallback conv pystr (set_logger p (Some ls')) K fb T) = Inr v
        \<and> logger (attrs (snd (get_value_with_fallback conv pystr (set_logger p (Some ls')) K fb T))) =
            Some (ls' @ [''Using '' @ prefix (attrs p) @ K @ '' = '' @ pystr v])"
    if v: "fst ?r = Inr v"
  proof -
    have f: "fst (get_value_with_fallback conv pystr (set_logger p (Some ls')) K fb T) = Inr v"
      using v by (simp add: gvwf_fst_set_logger)
    have l: "logger (attrs (set_logger p (Some ls'))) = Some ls'" by (simp add: set_logger_def)
    from gvwf_logged[OF f l] f show ?thesis by (simp add: set_logger_def)
  qed
  have 5: "printed_settings (attrs p) \<subseteq> printed_settings (attrs (snd ?r))"
    by (rule gvwf_printed_mono)
  from 1 2 3 4 5 show ?thesis by blast
qed


theorem C8_logging_dedup_witness:
  "logger (attrs ex_logged) = Some []
   \<and> fst (get_value_with_fallback conv_ex str_ex ex_logged ''db/port'' None TInt) = Inr (JInt 6000)
   \<and> ''db/port'' \<notin> printed_settings (attrs ex_logged)
   \<and> logger (attrs ex_logged_once) = Some [''Using db/port = 6000'']
   \<and> printed_settings (attrs ex_logged_once) = {''db/port''}
   \<and> snd (get_value_with_fallback conv_ex str_ex ex_logged_once ''db/port'' None TInt) =
       ex_logged_once
   \<and> logger (attrs (snd (get_value_with_fallback conv_ex str_ex
         (set_logger ex_logged_once (Some [])) ''db/port'' None TInt))) =
       Some [''Using db/port = 6000'']"
proof -
  have a: "logger (attrs ex_logged) = Some []" "prefix (attrs ex_logged) = []"
    "printed_settings (attrs ex_logged) = {}"
    by (simp_all add: ex_logged_def set_logger_def ex_defs)
  have b: "fst (get_value_with_fallback conv_ex str_ex ex_logged ''db/port'' None TInt) =
      Inr (JInt 6000)"
    unfolding ex_logged_def gvwf_fst_set_logger
    by (simp add: ex_defs get_value_with_fallback_def)
  have c: "str_ex (JInt 6000) = ''6000''"
    by (simp add: str_ex_def str_nat.simps)
  note t = C8_logging_dedup[of ex_logged "[]" conv_ex str_ex "''db/port''" None TInt "JInt 6000"
      None TInt "Some []" "[]"]
  from t a b c have d: "logger (attrs ex_logged_once) = Some [''Using db/port = 6000'']"
    "printed_settings (attrs ex_logged_once) = {''db/port''}"
    "snd (get_value_with_fallback conv_ex str_ex ex_logged_once ''db/port'' None TInt) =
       ex_logged_once"
    by (simp_all add: ex_logged_once_def)
  have e: "prefix (attrs ex_logged_once) = []"
    using gvwf_logged[OF b a(1)] a by (simp add: ex_logged_once_def)
  have f: "fst (get_value_with_fallback conv_ex str_ex ex_logged_once ''db/port'' None TInt) =
      Inr (JInt 6000)"
  proof -
    have "fst (get_value_with_fallback conv_ex str_ex ex_logged_once ''db/port'' None TInt) =
        fst (get_value_with_fallback conv_ex str_ex ex_logged ''db/port'' None TInt)"
      by (rule gvwf_fst_cong) (simp_all add: ex_logged_once_def gvwf_logged[OF b a(1)] a)
    with b show ?thesis by simp
  qed
  from C8_logging_dedup[of ex_logged_once "[''Using db/port = 6000'']" conv_ex str_ex
      "''db/port''" None TInt "JInt 6000" None TInt "Some []" "[]"] f e c
  have g: "logger (attrs (snd (get_value_with_fallback conv_ex str_ex
         (set_logger ex_logged_once (Some [])) ''db/port'' None TInt))) =
       Some [''Using db/port = 6000'']"
    by simp
  from a b d g show ?thesis by simp
qed

subsection \<open>Paths and leaves\<close>

text \<open>\<^verbatim>\<open>split\<close> undoes \<open>join\<close> on keys without \<^verbatim>\<open>'/'\<close>, so a path determines its keys.\<close>

lemma split_nonempty [simp]: "split c s \<noteq> []"
  by (induction s) auto

lemma split_no_sep: "c \<notin> set k \<Longrightarrow> split c k = [k]"
  by (induction k) auto

lemma split_append_sep: "c \<notin> set k \<Longrightarrow> split c (k @ c # rest) = k # split c rest"
  by (induction k) auto

lemma split_join:
  "ks \<noteq> [] \<Longrightarrow> \<forall>k\<in>set ks. CHR ''/'' \<notin> set k \<Longrightarrow> split CHR ''/'' (join ks) = ks"
proof (induction ks rule: join.induct)
  case 1
  then show ?case by simp
next
  case (2 k)
  then show ?case by (simp add: split_no_sep)
next
  case (3 k v va)
  then show ?case by (simp add: split_append_sep)
qed

lemma join_inj:
  assumes "ks \<noteq> []" "qs \<noteq> []" "\<forall>k\<in>set ks. CHR ''/'' \<notin> set k" "\<forall>k\<in>set qs. CHR ''/'' \<notin> set k"
    and "join ks = join qs"
  shows "ks = qs"
proof -
  have "ks = split CHR ''/'' (join ks)" using split_join[OF assms(1,3)] by simp
  also have "\<dots> = split CHR ''/'' (join qs)" by (simp only: assms(5))
  also have "\<dots> = qs" using split_join[OF assms(2,4)] .
  finally show ?thesis .
qed

lemma join_Cons: "ks \<noteq> [] \<Longrightarrow> join (k # ks) = k @ ''/'' @ join ks"
  by (cases ks) auto

lemma leaf_in_dict_Nil [simp]: "leaf_in [] (JDict c) = None"
  by simp

lemma leaf_in_Cons_dict:
  "leaf_in (q # rest) (JDict ((k, v) # kvs)) =
     (if q = k then leaf_in rest v else leaf_in (q # rest) (JDict kvs))"
  by simp

lemma leaf_in_not_key:
  "q \<notin> fst ` set c \<Longrightarrow> leaf_in (q # rest) (JDict c) = None"
  using map_of_eq_None_iff[of c q] by simp

lemma leaf_in_nondict:
  "(\<And>sub. v \<noteq> JDict sub) \<Longrightarrow> leaf_in rest v = (if rest = [] then Some v else None)"
  by (cases rest; cases v) auto

lemma flat_items_leaf:
  "wf_dict c \<Longrightarrow>
     (p, w) \<in> set (flat_items pre c) \<longleftrightarrow>
       (\<exists>ks. ks \<noteq> [] \<and> p = pre @ join ks \<and> leaf_in ks (JDict c) = Some w)"
proof (induction pre c arbitrary: p w rule: flat_items.induct)
  case (1 pre)
  show ?case
  proof
    assume "\<exists>ks. ks \<noteq> [] \<and> p = pre @ join ks \<and> leaf_in ks (JDict []) = Some w"
    then obtain ks where "ks \<noteq> []" "leaf_in ks (JDict []) = Some w" by blast
    then show "(p, w) \<in> set (flat_items pre [])" by (cases ks) auto
  qed simp
next
  case (2 pre k v kvs)
  from "2.prems" have wfk: "wf_dict kvs" and kn: "k \<notin> fst ` set kvs" by auto
  have tail: "(p, w) \<in> set (flat_items pre kvs) \<longleftrightarrow>
       (\<exists>ks. ks \<noteq> [] \<and> p = pre @ join ks \<and> leaf_in ks (JDict kvs) = Some w)"
    using "2.IH"(2)[OF wfk] .
  have tail': "(\<exists>ks. ks \<noteq> [] \<and> p = pre @ join ks \<and> leaf_in ks (JDict kvs) = Some w) \<longleftrightarrow>
      (\<exists>q rest. q \<noteq> k \<and> p = pre @ join (q # rest) \<and> leaf_in (q # rest) (JDict kvs) = Some w)"
  proof
    assume "\<exists>ks. ks \<noteq> [] \<and> p = pre @ join ks \<and> leaf_in ks (JDict kvs) = Some w"
    then obtain ks where ks: "ks \<noteq> []" "p = pre @ join ks" "leaf_in ks (JDict kvs) = Some w" by blast
    then obtain q rest where qr: "ks = q # rest" by (cases ks) auto
    with ks kn have "q \<noteq> k" using leaf_in_not_key[of k kvs rest] by auto
    with ks qr show "\<exists>q rest. q \<noteq> k \<and> p = pre @ join (q # rest) \<and> leaf_in (q # rest) (JDict kvs) = Some w"
      by blast
  next
    assume "\<exists>q rest. q \<noteq> k \<and> p = pre @ join (q # rest) \<and> leaf_in (q # rest) (JDict kvs) = Some w"
    then show "\<exists>ks. ks \<noteq> [] \<and> p = pre @ join ks \<and> leaf_in ks (JDict kvs) = Some w" by blast
  qed
  have head: "(p, w) \<in> set (case v of JDict sub \<Rightarrow> flat_items (pre @ k @ ''/'') sub | _ \<Rightarrow> [(pre @ k, v)])
      \<longleftrightarrow> (\<exists>rest. p = pre @ join (k # rest) \<and> leaf_in rest v = Some w)"
  proof (cases "\<exists>sub. v = JDict sub")
    case True
    then obtain sub where v: "v = JDict sub" by blast
    with "2.prems" have wfs: "wf_dict sub" by simp
    have "(p, w) \<in> set (flat_items (pre @ k @ ''/'') sub) \<longleftrightarrow>
       (\<exists>ks. ks \<noteq> [] \<and> p = (pre @ k @ ''/'') @ join ks \<and> leaf_in ks (JDict sub) = Some w)"
      using "2.IH"(1)[OF v wfs] .
    also have "\<dots> \<longleftrightarrow> (\<exists>rest. p = pre @ join (k # rest) \<and> leaf_in rest v = Some w)"
    proof
      assume "\<exists>ks. ks \<noteq> [] \<and> p = (pre @ k @ ''/'') @ join ks \<and> leaf_in ks (JDict sub) = Some w"
      then obtain ks where "ks \<noteq> []" "p = (pre @ k @ ''/'') @ join ks" "leaf_in ks (JDict sub) = Some w"
        by blast
      then show "\<exists>rest. p = pre @ join (k # rest) \<and> leaf_in rest v = Some w"
        using v by (intro exI[of _ ks]) (simp add: join_Cons)
    next
      assume "\<exists>rest. p = pre @ join (k # rest) \<and> leaf_in rest v = Some w"
      then obtain rest where r: "p = pre @ join (k # rest)" "leaf_in rest v = Some w" by blast
      with v have "rest \<noteq> []" by (cases rest) auto
      with r v show "\<exists>ks. ks \<noteq> [] \<and> p = (pre @ k @ ''/'') @ join ks \<and> leaf_in ks (JDict sub) = Some w"
        by (intro exI[of _ rest]) (simp add: join_Cons)
    qed
    finally show ?thesis using v by simp
  next
    case False
    then have nd: "\<And>sub. v \<noteq> JDict sub" by blast
    then have "(case v of JDict sub \<Rightarrow> flat_items (pre @ k @ ''/'') sub | _ \<Rightarrow> [(pre @ k, v)]) = [(pre @ k, v)]"
      by (cases v) auto
    moreover have "(\<exists>rest. p = pre @ join (k # rest) \<and> leaf_in rest v = Some w) \<longleftrightarrow> (p = pre @ k \<and> w = v)"
      using leaf_in_nondict[OF nd] by (auto split: if_splits)
    ultimately show ?thesis by auto
  qed
  have whole: "(\<exists>ks. ks \<noteq> [] \<and> p = pre @ join ks \<and> leaf_in ks (JDict ((k, v) # kvs)) = Some w) \<longleftrightarrow>
     (\<exists>rest. p = pre @ join (k # rest) \<and> leaf_in rest v = Some w)
     \<or> (\<exists>q rest. q \<noteq> k \<and> p = pre @ join (q # rest) \<and> leaf_in (q # rest) (JDict kvs) = Some w)"
  proof
    assume "\<exists>ks. ks \<noteq> [] \<and> p = pre @ join ks \<and> leaf_in ks (JDict ((k, v) # kvs)) = Some w"
    then obtain ks where ks: "ks \<noteq> []" "p = pre @ join ks" "leaf_in ks (JDict ((k, v) # kvs)) = Some w"
      by blast
    then obtain q rest where qr: "ks = q # rest" by (cases ks) auto
    show "(\<exists>rest. p = pre @ join (k # rest) \<and> leaf_in rest v = Some w)
     \<or> (\<exists>q rest. q \<noteq> k \<and> p = pre @ join (q # rest) \<and> leaf_in (q # rest) (JDict kvs) = Some w)"
    proof (cases "q = k")
      case True
      with ks qr show ?thesis by (auto simp: leaf_in_Cons_dict simp del: leaf_in.simps)
    next
      case False
      with ks qr have "leaf_in (q # rest) (JDict kvs) = Some w"
        by (simp add: leaf_in_Cons_dict del: leaf_in.simps)
      with False ks qr show ?thesis by blast
    qed
  next
    assume "(\<exists>rest. p = pre @ join (k # rest) \<and> leaf_in rest v = Some w)
     \<or> (\<exists>q rest. q \<noteq> k \<and> p = pre @ join (q # rest) \<and> leaf_in (q # rest) (JDict kvs) = Some w)"
    then show "\<exists>ks. ks \<noteq> [] \<and> p = pre @ join ks \<and> leaf_in ks (JDict ((k, v) # kvs)) = Some w"
    proof
      assume "\<exists>rest. p = pre @ join (k # rest) \<and> leaf_in rest v = Some w"
      then obtain rest where "p = pre @ join (k # rest)" "leaf_in rest v = Some w" by blast
      then show ?thesis
        by (intro exI[of _ "k # rest"]) (simp add: leaf_in_Cons_dict del: leaf_in.simps join.simps)
    next
      assume "\<exists>q rest. q \<noteq> k \<and> p = pre @ join (q # rest) \<and> leaf_in (q # rest) (JDict kvs) = Some w"
      then obtain q rest where "q \<noteq> k" "p = pre @ join (q # rest)" "leaf_in (q # rest) (JDict kvs) = Some w"
        by blast
      then show ?thesis
        by (intro exI[of _ "q # rest"]) (simp add: leaf_in_Cons_dict del: leaf_in.simps join.simps)
    qed
  qed
  have "(p, w) \<in> set (flat_items pre ((k, v) # kvs)) \<longleftrightarrow>
      (p, w) \<in> set (case v of JDict sub \<Rightarrow> flat_items (pre @ k @ ''/'') sub | _ \<Rightarrow> [(pre @ k, v)])
      \<or> (p, w) \<in> set (flat_items pre kvs)"
    by simp
  then show ?case unfolding head tail tail' whole .
qed


text \<open>On a well-formed configuration the paths of \<open>flat_items\<close> are distinct, so
  \<open>flatten\<close> is \<open>flat_items\<close> and its entries are exactly the leaves.\<close>

lemma wf_dict_Cons: "wf_dict ((k, v) # kvs) \<longleftrightarrow>
   CHR ''/'' \<notin> set k \<and> k \<notin> fst ` set kvs \<and> wfv v \<and> wf_dict kvs"
  by (simp add: wfv_def)

lemma wf_dict_map_of:
  "wf_dict c \<Longrightarrow> map_of c k = Some x \<Longrightarrow> CHR ''/'' \<notin> set k \<and> wfv x"
  by (induction c rule: wf_dict.induct) (auto simp: wfv_def split: if_splits)

lemma wf_dict_distinct: "wf_dict c \<Longrightarrow> distinct (map fst c)"
  by (induction c rule: wf_dict.induct) auto

lemma wf_dict_keys: "wf_dict c \<Longrightarrow> k \<in> fst ` set c \<Longrightarrow> CHR ''/'' \<notin> set k"
  by (induction c rule: wf_dict.induct) auto

lemma leaf_in_slash_free:
  "wfv v \<Longrightarrow> leaf_in ks v = Some w \<Longrightarrow> \<forall>k\<in>set ks. CHR ''/'' \<notin> set k"
proof (induction ks arbitrary: v)
  case Nil
  then show ?case by simp
next
  case (Cons k ks)
  from Cons.prems obtain sub x where v: "v = JDict sub" and m: "map_of sub k = Some x"
    and l: "leaf_in ks x = Some w"
    by (auto split: jval.splits option.splits)
  from Cons.prems(1) v have "wf_dict sub" by (simp add: wfv_def)
  from wf_dict_map_of[OF this m] Cons.IH[OF _ l] show ?case by simp
qed

lemma leaf_in_py_wf:
  "wfv v \<Longrightarrow> leaf_in ks v = Some w \<Longrightarrow> py_wf w"
proof (induction ks arbitrary: v)
  case Nil
  then show ?case by (cases v) (auto simp: wfv_def)
next
  case (Cons k ks)
  from Cons.prems obtain sub x where v: "v = JDict sub" and m: "map_of sub k = Some x"
    and l: "leaf_in ks x = Some w"
    by (auto split: jval.splits option.splits)
  from Cons.prems(1) v have "wf_dict sub" by (simp add: wfv_def)
  from wf_dict_map_of[OF this m] Cons.IH[OF _ l] show ?case by simp
qed

lemma wfv_JDict [simp]: "wfv (JDict c) = wf_dict c"
  by (simp add: wfv_def)

lemma flat_items_distinct:
  "wf_dict c \<Longrightarrow> distinct (map fst (flat_items pre c))"
proof (induction pre c rule: flat_items.induct)
  case (1 pre)
  then show ?case by simp
next
  case (2 pre k v kvs)
  from "2.prems" have wfk: "wf_dict kvs" and kn: "k \<notin> fst ` set kvs" and wv: "wfv v"
    and ks: "CHR ''/'' \<notin> set k"
    by (auto simp: wfv_def)
  let ?A = "(case v of JDict sub \<Rightarrow> flat_items (pre @ k @ ''/'') sub | _ \<Rightarrow> [(pre @ k, v)])"
  have dA: "distinct (map fst ?A)"
  proof (cases v)
    case (JDict sub)
    with "2.prems" have "wf_dict sub" by simp
    from "2.IH"(1)[OF JDict this] JDict show ?thesis by simp
  qed auto
  have dB: "distinct (map fst (flat_items pre kvs))" using "2.IH"(2)[OF wfk] .
  have A: "\<exists>rest. p = pre @ join (k # rest) \<and> (\<forall>x\<in>set rest. CHR ''/'' \<notin> set x)"
    if "p \<in> fst ` set ?A" for p
  proof -
    from that obtain w where "(p, w) \<in> set ?A" by auto
    then have "(p, w) \<in> set (flat_items pre [(k, v)])" by simp
    moreover have "wf_dict [(k, v)]" using "2.prems" by simp
    ultimately obtain qs where q: "qs \<noteq> []" "p = pre @ join qs" "leaf_in qs (JDict [(k, v)]) = Some w"
      using flat_items_leaf[of "[(k, v)]" p w pre] by blast
    then obtain q rest where qr: "qs = q # rest" by (cases qs) auto
    with q have "q = k" "leaf_in rest v = Some w" by (auto split: if_splits)
    with leaf_in_slash_free[OF wv this(2)] q qr show ?thesis by blast
  qed
  have B: "\<exists>q rest. q \<noteq> k \<and> p = pre @ join (q # rest) \<and> (\<forall>x\<in>set (q # rest). CHR ''/'' \<notin> set x)"
    if "p \<in> fst ` set (flat_items pre kvs)" for p
  proof -
    from that obtain w where "(p, w) \<in> set (flat_items pre kvs)" by auto
    then obtain qs where q: "qs \<noteq> []" "p = pre @ join qs" "leaf_in qs (JDict kvs) = Some w"
      using flat_items_leaf[OF wfk, of p w pre] by blast
    then obtain q rest where qr: "qs = q # rest" by (cases qs) auto
    with q kn have "q \<noteq> k" using leaf_in_not_key[of k kvs rest] by auto
    moreover have "\<forall>x\<in>set qs. CHR ''/'' \<notin> set x"
      using leaf_in_slash_free[of "JDict kvs" qs w] wfk q by simp
    ultimately show ?thesis using q qr by blast
  qed
  have disj: "fst ` set ?A \<inter> fst ` set (flat_items pre kvs) = {}"
  proof (rule ccontr)
    assume "fst ` set ?A \<inter> fst ` set (flat_items pre kvs) \<noteq> {}"
    then obtain p where pA: "p \<in> fst ` set ?A" and pB: "p \<in> fst ` set (flat_items pre kvs)" by blast
    from A[OF pA] obtain rest where r: "p = pre @ join (k # rest)" "\<forall>x\<in>set rest. CHR ''/'' \<notin> set x"
      by blast
    from B[OF pB] obtain q rest' where r': "q \<noteq> k" "p = pre @ join (q # rest')"
      "\<forall>x\<in>set (q # rest'). CHR ''/'' \<notin> set x" by blast
    from r r' have "join (k # rest) = join (q # rest')" by simp
    from join_inj[OF _ _ _ _ this] r(2) r'(3) ks have "k # rest = q # rest'" by simp
    with r'(1) show False by simp
  qed
  have "map fst (flat_items pre ((k, v) # kvs)) = map fst ?A @ map fst (flat_items pre kvs)"
    by simp
  with dA dB disj show ?case by (simp only: distinct_append set_map) 
qed

lemma foldl_update_distinct:
  "distinct (map fst xs) \<Longrightarrow> fst ` set acc \<inter> fst ` set xs = {} \<Longrightarrow>
     foldl (\<lambda>acc (p, v). AList.update p v acc) acc xs = acc @ xs"
proof (induction xs arbitrary: acc)
  case Nil
  then show ?case by simp
next
  case (Cons x xs)
  obtain p v where x: "x = (p, v)" by (cases x)
  from Cons.prems x have pn: "p \<notin> fst ` set acc" by auto
  have u: "AList.update p v acc = acc @ [(p, v)]" using pn
    by (induction acc) auto
  have "foldl (\<lambda>acc (p, v). AList.update p v acc) (acc @ [(p, v)]) xs = (acc @ [(p, v)]) @ xs"
    using Cons.prems x by (intro Cons.IH) auto
  with u x show ?case by simp
qed

lemma flatten_wf: "wf_dict c \<Longrightarrow> flatten c = flat_items [] c"
  unfolding flatten_def using foldl_update_distinct[of "flat_items [] c" "[]"] flat_items_distinct[of c "[]"]
  by simp

lemma flatten_leaf:
  "wf_dict c \<Longrightarrow>
     (p, w) \<in> set (flatten c) \<longleftrightarrow> (\<exists>ks. ks \<noteq> [] \<and> p = join ks \<and> leaf_in ks (JDict c) = Some w)"
  using flat_items_leaf[of c p w "[]"] by (simp add: flatten_wf)

lemma map_of_flatten:
  "wf_dict c \<Longrightarrow>
     map_of (flatten c) p = Some w \<longleftrightarrow> (\<exists>ks. ks \<noteq> [] \<and> p = join ks \<and> leaf_in ks (JDict c) = Some w)"
  using flatten_leaf[of c p w] flat_items_distinct[of c "[]"]
  by (simp add: flatten_wf)

lemma map_of_flatten_join:
  assumes "wf_dict c" "leaf_in ks (JDict c) = Some w"
  shows "map_of (flatten c) (join ks) = Some w"
proof -
  from assms(2) have "ks \<noteq> []" by (cases ks) auto
  with assms show ?thesis using map_of_flatten[OF assms(1), of "join ks" w] by blast
qed


subsection \<open>The diff engine on well-formed configurations\<close>

text \<open>Deleting along an existing path succeeds, keeps the configuration well formed,
  removes the leaves below the path and no other, and leaves a dictionary at the parent
  path. Pruning removes only empty dictionaries, so it changes no leaf.\<close>

lemma wf_dict_delete: "wf_dict c \<Longrightarrow> wf_dict (AList.delete k c)"
proof (induction c rule: wf_dict.induct)
  case 1
  then show ?case by simp
next
  case (2 q v kvs)
  have "fst ` set (AList.delete k kvs) \<subseteq> fst ` set kvs" by (rule AList.dom_delete_subset)
  with 2 show ?case by (auto simp: wf_dict_Cons)
qed

lemma wf_dict_update:
  "wf_dict c \<Longrightarrow> CHR ''/'' \<notin> set k \<Longrightarrow> wfv x \<Longrightarrow> wf_dict (AList.update k x c)"
proof (induction c rule: wf_dict.induct)
  case 1
  then show ?case by (simp add: wfv_def)
next
  case (2 q v kvs)
  then show ?case by (auto simp: wfv_def AList.dom_update)
qed

lemma leaf_in_update:
  "leaf_in (q # rest) (JDict (AList.update k x c)) =
     (if q = k then leaf_in rest x else leaf_in (q # rest) (JDict c))"
  by (simp add: AList.update_conv')

lemma leaf_in_delete:
  "leaf_in (q # rest) (JDict (AList.delete k c)) =
     (if q = k then None else leaf_in (q # rest) (JDict c))"
  by (simp add: AList.delete_conv')

lemma get_path_leaf_in:
  "get_path ks c = Inr x \<Longrightarrow> leaf_in (ks @ rest) (JDict c) = leaf_in rest x"
proof (induction ks c rule: get_path.induct)
  case (1 cfg)
  then show ?case by simp
next
  case (2 k cfg)
  then show ?case by (auto split: option.splits)
next
  case (3 k v va cfg)
  from "3.prems" obtain sub where m: "map_of cfg k = Some (JDict sub)"
    and g: "get_path (v # va) sub = Inr x"
    by (auto split: option.splits jval.splits)
  from "3.IH"[OF m refl g] m show ?case by simp
qed

lemma get_path_nonempty: "get_path ks c = Inr x \<Longrightarrow> ks \<noteq> []"
  by (cases ks) auto

lemma leaf_in_get_path:
  "leaf_in ks (JDict c) = Some v \<Longrightarrow> get_path ks c = Inr v"
proof (induction ks c rule: get_path.induct)
  case (1 cfg)
  then show ?case by simp
next
  case (2 k cfg)
  then show ?case by (auto split: option.splits jval.splits)
next
  case (3 k v' va cfg)
  from "3.prems" obtain x where m: "map_of cfg k = Some x" and l: "leaf_in (v' # va) x = Some v"
    by (auto split: option.splits)
  from l obtain sub where x: "x = JDict sub" by (cases x) auto
  from "3.IH"[OF m[unfolded x] refl l[unfolded x]] m x show ?case by simp
qed

lemma leaf_in_leaf_ext:
  assumes "leaf_in ks v = Some w" "rest \<noteq> []"
  shows "leaf_in (ks @ rest) v = None"
  using assms
proof (induction ks arbitrary: v)
  case Nil
  then show ?case by (cases rest; cases v) auto
next
  case (Cons k ks)
  then show ?case by (auto split: jval.splits option.splits)
qed

lemma del_path_props:
  "get_path ks c = Inr x \<Longrightarrow> wf_dict c \<Longrightarrow>
     \<exists>c'. del_path ks c = Inr c' \<and> wf_dict c'
        \<and> (\<forall>qs. leaf_in qs (JDict c') =
               (if take (length ks) qs = ks then None else leaf_in qs (JDict c)))
        \<and> (butlast ks = [] \<or> (\<exists>s. get_path (butlast ks) c' = Inr (JDict s)))"
proof (induction ks c arbitrary: x rule: del_path.induct)
  case (1 cfg)
  then show ?case by simp
next
  case (2 k cfg)
  from "2.prems" have m: "map_of cfg k = Some x" by (auto split: option.splits)
  then have kin: "k \<in> fst ` set cfg" by (metis map_of_eq_None_iff option.distinct(1))
  have l: "leaf_in qs (JDict (AList.delete k cfg)) =
      (if take (length [k]) qs = [k] then None else leaf_in qs (JDict cfg))" for qs
  proof (cases qs)
    case Nil
    then show ?thesis by simp
  next
    case (Cons q rest)
    then show ?thesis by (simp only: leaf_in_delete) auto
  qed
  from kin l wf_dict_delete[OF "2.prems"(2)] show ?case by simp
next
  case (3 k k' ks cfg)
  from "3.prems" obtain sub where m: "map_of cfg k = Some (JDict sub)"
    and g: "get_path (k' # ks) sub = Inr x"
    by (auto split: option.splits jval.splits)
  from wf_dict_map_of[OF "3.prems"(2) m] have ksl: "CHR ''/'' \<notin> set k" and wfs: "wf_dict sub"
    by simp_all
  from "3.IH"[OF m refl g wfs] obtain sub' where d: "del_path (k' # ks) sub = Inr sub'"
    and wf': "wf_dict sub'"
    and lf: "\<And>qs. leaf_in qs (JDict sub') =
               (if take (length (k' # ks)) qs = k' # ks then None else leaf_in qs (JDict sub))"
    and da: "butlast (k' # ks) = [] \<or> (\<exists>s. get_path (butlast (k' # ks)) sub' = Inr (JDict s))"
    by blast
  let ?c' = "AList.update k (JDict sub') cfg"
  have 1: "del_path (k # k' # ks) cfg = Inr ?c'" using m d by simp
  have 2: "wf_dict ?c'" using wf_dict_update[OF "3.prems"(2) ksl] wf' by simp
  have 3: "leaf_in qs (JDict ?c') =
      (if take (length (k # k' # ks)) qs = k # k' # ks then None else leaf_in qs (JDict cfg))" for qs
  proof (cases qs)
    case Nil
    then show ?thesis by simp
  next
    case (Cons q rest)
    show ?thesis
    proof (cases "q = k")
      case True
      have "leaf_in (k # rest) (JDict cfg) = leaf_in rest (JDict sub)" using m by simp
      with True Cons lf[of rest] show ?thesis by (simp only: leaf_in_update) simp
    next
      case False
      with Cons show ?thesis by (simp only: leaf_in_update) simp
    qed
  qed
  have mu: "map_of ?c' k = Some (JDict sub')" by (simp add: AList.update_conv')
  have 4: "\<exists>s. get_path (butlast (k # k' # ks)) ?c' = Inr (JDict s)"
  proof (cases "butlast (k' # ks)")
    case Nil
    with mu show ?thesis by simp
  next
    case (Cons b bs)
    with da obtain s where "get_path (b # bs) sub' = Inr (JDict s)" by auto
    with Cons mu show ?thesis by simp
  qed
  from 1 2 3 4 show ?case by blast
qed

lemma prune_props:
  "wf_dict c \<Longrightarrow> ks = [] \<or> (\<exists>s. get_path ks c = Inr (JDict s)) \<Longrightarrow>
     \<exists>c'. prune ks c = Inr c' \<and> wf_dict c'
        \<and> (\<forall>qs. leaf_in qs (JDict c') = leaf_in qs (JDict c))"
proof (induction ks c rule: prune.induct)
  case (1 keys cfg)
  show ?case
  proof (cases "keys = []")
    case True
    with "1.prems" show ?thesis by (simp add: prune.simps)
  next
    case False
    with "1.prems" obtain s where g: "get_path keys cfg = Inr (JDict s)" by blast
    show ?thesis
    proof (cases "s = []")
      case ne: False
      with g False "1.prems" show ?thesis by (simp add: prune.simps)
    next
      case True
      from del_path_props[OF g "1.prems"(1)] obtain c' where d: "del_path keys cfg = Inr c'"
        and wf': "wf_dict c'"
        and lf: "\<And>qs. leaf_in qs (JDict c') =
               (if take (length keys) qs = keys then None else leaf_in qs (JDict cfg))"
        and da: "butlast keys = [] \<or> (\<exists>s. get_path (butlast keys) c' = Inr (JDict s))"
        by blast
      have same: "leaf_in qs (JDict c') = leaf_in qs (JDict cfg)" for qs
      proof (cases "take (length keys) qs = keys")
        case t: True
        then have "qs = keys @ drop (length keys) qs" by (metis append_take_drop_id)
        then have "leaf_in qs (JDict cfg) = leaf_in (drop (length keys) qs) (JDict [])"
          using get_path_leaf_in[OF g, of "drop (length keys) qs"] True by simp
        also have "\<dots> = None" by (cases "drop (length keys) qs") auto
        finally show ?thesis using lf[of qs] t by simp
      next
        case False
        then show ?thesis using lf[of qs] by simp
      qed
      have len: "0 < length keys" using False by simp
      have pl: "py_len (JDict s) = Inr 0" using True by simp
      from "1.IH"[OF len g pl refl d wf' da] obtain c'' where
        p: "prune (butlast keys) c' = Inr c''" and wf'': "wf_dict c''"
        and lf'': "\<And>qs. leaf_in qs (JDict c'') = leaf_in qs (JDict c')" by blast
      have "prune keys cfg = Inr c''"
        using len g pl d p by (subst prune.simps) simp
      with wf'' lf'' same show ?thesis by simp
    qed
  qed
qed

lemma diff_step_props:
  assumes wf: "wf_dict cfg" and lf: "leaf_in ks (JDict cfg) = Some v"
  shows "\<exists>cfg'. diff_step old (join ks) v cfg = Inr cfg' \<and> wf_dict cfg'
        \<and> (\<forall>qs. leaf_in qs (JDict cfg') =
               (if hit old (join ks) v \<and> qs = ks then None else leaf_in qs (JDict cfg)))"
proof (cases "hit old (join ks) v")
  case False
  then show ?thesis using wf by (simp add: diff_step_def hit_def)
next
  case True
  from lf have ne: "ks \<noteq> []" by (cases ks) auto
  have sf: "\<forall>k\<in>set ks. CHR ''/'' \<notin> set k"
    using leaf_in_slash_free[of "JDict cfg" ks v] wf lf by simp
  have sp: "split CHR ''/'' (join ks) = ks" using split_join[OF ne sf] .
  from del_path_props[OF leaf_in_get_path[OF lf] wf] obtain c1 where d: "del_path ks cfg = Inr c1"
    and wf1: "wf_dict c1"
    and lf1: "\<And>qs. leaf_in qs (JDict c1) =
               (if take (length ks) qs = ks then None else leaf_in qs (JDict cfg))"
    and da: "butlast ks = [] \<or> (\<exists>s. get_path (butlast ks) c1 = Inr (JDict s))"
    by blast
  from prune_props[OF wf1 da] obtain c2 where p: "prune (butlast ks) c1 = Inr c2"
    and wf2: "wf_dict c2" and lf2: "\<And>qs. leaf_in qs (JDict c2) = leaf_in qs (JDict c1)"
    by blast
  have l: "leaf_in qs (JDict c2) = (if qs = ks then None else leaf_in qs (JDict cfg))" for qs
  proof (cases "take (length ks) qs = ks")
    case False
    then have "qs \<noteq> ks" by auto
    with False lf1[of qs] lf2[of qs] show ?thesis by simp
  next
    case t: True
    show ?thesis
    proof (cases "qs = ks")
      case True
      with lf1[of qs] lf2[of qs] show ?thesis by simp
    next
      case False
      from t have q: "qs = ks @ drop (length ks) qs" by (metis append_take_drop_id)
      with False have "drop (length ks) qs \<noteq> []" by auto
      from leaf_in_leaf_ext[OF lf this] q have "leaf_in qs (JDict cfg) = None" by simp
      with t False lf1[of qs] lf2[of qs] show ?thesis by simp
    qed
  qed
  have "diff_step old (join ks) v cfg = Inr c2"
    using True d p sp by (simp add: diff_step_def hit_def Let_def)
  with wf2 l True show ?thesis by simp
qed


text \<open>The loop invariant of \<^verbatim>\<open>diff_config\<close>: the leaves of the current configuration are
  those of the candidate, without the ones already visited that hit the old mapping.\<close>

lemma diff_loop_props:
  assumes "wf_dict cfg" "distinct (map fst items)"
    and "\<forall>(p, v)\<in>set items. \<exists>ks. p = join ks \<and> leaf_in ks (JDict cfg) = Some v"
  shows "\<exists>cfg'. diff_loop old items cfg = Inr cfg' \<and> wf_dict cfg'
        \<and> (\<forall>qs. leaf_in qs (JDict cfg') =
               (case leaf_in qs (JDict cfg) of
                  None \<Rightarrow> None
                | Some w \<Rightarrow> if (join qs, w) \<in> set items \<and> hit old (join qs) w then None else Some w))"
  using assms
proof (induction items arbitrary: cfg)
  case Nil
  then show ?case by (auto split: option.splits)
next
  case (Cons item items)
  obtain p v where item: "item = (p, v)" by (cases item)
  from Cons.prems(3) item obtain ks where p: "p = join ks" and lf: "leaf_in ks (JDict cfg) = Some v"
    by auto
  have sfl: "\<forall>k\<in>set qs. CHR ''/'' \<notin> set k" if "leaf_in qs (JDict c) = Some w" "wf_dict c" for qs w c
    using leaf_in_slash_free[of "JDict c" qs w] that by simp
  have nel: "qs \<noteq> []" if "leaf_in qs (JDict c) = Some w" for qs w c
    using that by (cases qs) auto
  have inj: "qs = ks" if "leaf_in qs (JDict cfg) = Some w" "join qs = join ks" for qs w
    using join_inj[OF nel[OF that(1)] nel[OF lf] sfl[OF that(1) Cons.prems(1)] sfl[OF lf Cons.prems(1)] that(2)] .
  from diff_step_props[OF Cons.prems(1) lf, of old] obtain c1 where
    s: "diff_step old (join ks) v cfg = Inr c1" and wf1: "wf_dict c1"
    and l1: "\<And>qs. leaf_in qs (JDict c1) =
               (if hit old (join ks) v \<and> qs = ks then None else leaf_in qs (JDict cfg))"
    by blast
  have d: "distinct (map fst items)" using Cons.prems(2) by simp
  have pn: "p \<notin> fst ` set items" using Cons.prems(2) item by simp
  have rest: "\<forall>(p', v')\<in>set items. \<exists>ks'. p' = join ks' \<and> leaf_in ks' (JDict c1) = Some v'"
  proof (clarify)
    fix p' v' assume m: "(p', v') \<in> set items"
    with Cons.prems(3) obtain ks' where k': "p' = join ks'" "leaf_in ks' (JDict cfg) = Some v'"
      by fastforce
    from m pn have "p' \<noteq> p" by force
    with k' p have "ks' \<noteq> ks" by auto
    with l1[of ks'] k' show "\<exists>ks'. p' = join ks' \<and> leaf_in ks' (JDict c1) = Some v'" by auto
  qed
  from Cons.IH[OF wf1 d rest] obtain c2 where
    lp: "diff_loop old items c1 = Inr c2" and wf2: "wf_dict c2"
    and l2: "\<And>qs. leaf_in qs (JDict c2) =
               (case leaf_in qs (JDict c1) of
                  None \<Rightarrow> None
                | Some w \<Rightarrow> if (join qs, w) \<in> set items \<and> hit old (join qs) w then None else Some w)"
    by blast
  have "diff_loop old (item # items) cfg = Inr c2" using s lp item p by simp
  moreover have "leaf_in qs (JDict c2) =
               (case leaf_in qs (JDict cfg) of
                  None \<Rightarrow> None
                | Some w \<Rightarrow> if (join qs, w) \<in> set (item # items) \<and> hit old (join qs) w then None else Some w)"
    for qs
  proof (cases "leaf_in qs (JDict cfg)")
    case None
    with l1[of qs] l2[of qs] show ?thesis by simp
  next
    case (Some w)
    show ?thesis
    proof (cases "qs = ks")
      case True
      with Some lf have wv: "w = v" by simp
      show ?thesis
      proof (cases "hit old (join ks) v")
        case h: True
        with True l1[of qs] l2[of qs] Some wv item p show ?thesis by simp
      next
        case h: False
        with True l1[of qs] l2[of qs] Some wv item p show ?thesis by auto
      qed
    next
      case False
      with inj[OF Some] have "join qs \<noteq> join ks" by blast
      with False l1[of qs] l2[of qs] Some item p show ?thesis by auto
    qed
  qed
  ultimately show ?case using wf2 by blast
qed

theorem diff_config_leaves:
  assumes wf: "wf_dict cand" and bc: "config (attrs b) = Some bc"
  shows "\<exists>d. diff_config b cand = Inr d \<and> wf_dict d
        \<and> (\<forall>qs. leaf_in qs (JDict d) =
               (case leaf_in qs (JDict cand) of
                  None \<Rightarrow> None
                | Some w \<Rightarrow> if hit (flatten bc) (join qs) w then None else Some w))"
proof -
  have 1: "distinct (map fst (flatten cand))"
    using flat_items_distinct[OF wf, of "[]"] by (simp add: flatten_wf[OF wf])
  have 2: "\<forall>(p, v)\<in>set (flatten cand). \<exists>ks. p = join ks \<and> leaf_in ks (JDict cand) = Some v"
    using flatten_leaf[OF wf] by blast
  from diff_loop_props[OF wf 1 2, of "flatten bc"] obtain d where
    d: "diff_loop (flatten bc) (flatten cand) cand = Inr d" and wfd: "wf_dict d"
    and l: "\<And>qs. leaf_in qs (JDict d) =
               (case leaf_in qs (JDict cand) of
                  None \<Rightarrow> None
                | Some w \<Rightarrow> if (join qs, w) \<in> set (flatten cand) \<and> hit (flatten bc) (join qs) w
                            then None else Some w)"
    by blast
  have "leaf_in qs (JDict d) =
               (case leaf_in qs (JDict cand) of
                  None \<Rightarrow> None
                | Some w \<Rightarrow> if hit (flatten bc) (join qs) w then None else Some w)" for qs
  proof (cases "leaf_in qs (JDict cand)")
    case None
    with l[of qs] show ?thesis by simp
  next
    case (Some w)
    then have "qs \<noteq> []" by (cases qs) auto
    with Some have "(join qs, w) \<in> set (flatten cand)" using flatten_leaf[OF wf, of "join qs" w] by blast
    with l[of qs] Some show ?thesis by simp
  qed
  moreover have "diff_config b cand = Inr d" using d bc by (simp add: diff_config_def)
  ultimately show ?thesis using wfd by blast
qed

lemma diff_config_flatten:
  assumes wf: "wf_dict cand" and bc: "config (attrs b) = Some bc"
  shows "\<exists>d. diff_config b cand = Inr d \<and> wf_dict d
        \<and> (\<forall>p v. map_of (flatten d) p = Some v \<longleftrightarrow>
                   map_of (flatten cand) p = Some v \<and> \<not> hit (flatten bc) p v)"
proof -
  from diff_config_leaves[OF wf bc] obtain d where d: "diff_config b cand = Inr d" and wfd: "wf_dict d"
    and l: "\<And>qs. leaf_in qs (JDict d) =
               (case leaf_in qs (JDict cand) of
                  None \<Rightarrow> None
                | Some w \<Rightarrow> if hit (flatten bc) (join qs) w then None else Some w)"
    by blast
  have "map_of (flatten d) p = Some v \<longleftrightarrow>
                   map_of (flatten cand) p = Some v \<and> \<not> hit (flatten bc) p v" for p v
    unfolding map_of_flatten[OF wfd] map_of_flatten[OF wf]
    by (auto simp: l split: option.splits if_splits)
  with d wfd show ?thesis by blast
qed

subsection \<open>Empty containers\<close>

text \<open>A deletion along a path creates at most one empty container, at the parent path;
  pruning from there removes it, and so on upwards. Hence no step of \<^verbatim>\<open>diff_config\<close>
  leaves an empty container that was not there before.\<close>

lemma no_empty_map_of:
  "no_empty c \<Longrightarrow> map_of c k = Some (JDict sub) \<Longrightarrow> sub \<noteq> [] \<and> no_empty sub"
  by (induction c rule: no_empty.induct) (auto split: if_splits)

lemma no_empty_get_path:
  "no_empty c \<Longrightarrow> get_path qs c = Inr (JDict s) \<Longrightarrow> s \<noteq> [] \<and> no_empty s"
proof (induction qs c rule: get_path.induct)
  case (1 cfg)
  then show ?case by simp
next
  case (2 k cfg)
  then show ?case using no_empty_map_of[of cfg k s] by (auto split: option.splits)
next
  case (3 k v va cfg)
  from "3.prems"(2) obtain sub where m: "map_of cfg k = Some (JDict sub)"
    and g: "get_path (v # va) sub = Inr (JDict s)"
    by (auto split: option.splits jval.splits)
  from no_empty_map_of[OF "3.prems"(1) m] have "no_empty sub" by simp
  from "3.IH"[OF m refl this g] show ?case .
qed

lemma get_path_Cons_head:
  "rest \<noteq> [] \<Longrightarrow> get_path (k # rest) ((k, JDict sub) # kvs) = get_path rest sub"
  by (cases rest) auto

lemma get_path_Cons_other:
  "q \<noteq> k \<Longrightarrow> get_path (q # rest) ((k, v) # kvs) = get_path (q # rest) kvs"
  by (cases rest) auto

lemma get_path_not_key:
  "q \<notin> fst ` set c \<Longrightarrow> get_path (q # rest) c = Inl (KeyError q)"
  using map_of_eq_None_iff[of c q] by (cases rest) auto

lemma no_empty_iff:
  "wf_dict c \<Longrightarrow> no_empty c \<longleftrightarrow> (\<forall>qs. get_path qs c \<noteq> Inr (JDict []))"
proof
  assume "no_empty c"
  then show "\<forall>qs. get_path qs c \<noteq> Inr (JDict [])" using no_empty_get_path by blast
next
  assume "wf_dict c" "\<forall>qs. get_path qs c \<noteq> Inr (JDict [])"
  then show "no_empty c"
  proof (induction c rule: wf_dict.induct)
    case 1
    then show ?case by simp
  next
    case (2 k v kvs)
    from "2.prems"(1) have kn: "k \<notin> fst ` set kvs" and wfk: "wf_dict kvs" by auto
    have tail: "\<forall>qs. get_path qs kvs \<noteq> Inr (JDict [])"
    proof
      fix qs
      show "get_path qs kvs \<noteq> Inr (JDict [])"
      proof (cases qs)
        case Nil
        then show ?thesis by simp
      next
        case (Cons q rest)
        show ?thesis
        proof (cases "q = k")
          case True
          with Cons kn show ?thesis by (simp add: get_path_not_key)
        next
          case False
          with Cons "2.prems"(2) show ?thesis
            using get_path_Cons_other[OF False, of rest v kvs] by metis
        qed
      qed
    qed
    have head: "sub \<noteq> [] \<and> no_empty sub" if v: "v = JDict sub" for sub
    proof -
      from "2.prems"(1) v have wfs: "wf_dict sub" by simp
      have "get_path [k] ((k, v) # kvs) = Inr (JDict sub)" using v by simp
      with "2.prems"(2) have ne: "sub \<noteq> []" by metis
      have "\<forall>qs. get_path qs sub \<noteq> Inr (JDict [])"
      proof
        fix qs
        show "get_path qs sub \<noteq> Inr (JDict [])"
        proof (cases "qs = []")
          case True
          then show ?thesis by simp
        next
          case False
          from get_path_Cons_head[OF False, of k sub kvs] "2.prems"(2) v show ?thesis by metis
        qed
      qed
      from "2.IH"(1)[OF v wfs this] ne show ?thesis by simp
    qed
    from head "2.IH"(2)[OF wfk tail] show ?case by (cases v) auto
  qed
qed

lemma get_path_delete:
  "get_path (q # rest) (AList.delete k c) =
     (if q = k then Inl (KeyError k) else get_path (q # rest) c)"
  by (cases rest) (auto simp: AList.delete_conv')

lemma get_path_update_other:
  "q \<noteq> k \<Longrightarrow> get_path (q # rest) (AList.update k x c) = get_path (q # rest) c"
  by (cases rest) (auto simp: AList.update_conv')

lemma get_path_update_same:
  "get_path (k # rest) (AList.update k (JDict sub) c) =
     (if rest = [] then Inr (JDict sub) else get_path rest sub)"
  by (cases rest) (auto simp: AList.update_conv')

lemma del_path_empties:
  "get_path ks c = Inr x \<Longrightarrow> wf_dict c \<Longrightarrow> del_path ks c = Inr c' \<Longrightarrow>
     get_path qs c' = Inr (JDict []) \<Longrightarrow>
     qs \<noteq> ks \<and> (get_path qs c = Inr (JDict []) \<or> qs = butlast ks)"
proof (induction ks c arbitrary: x c' qs rule: del_path.induct)
  case (1 cfg)
  then show ?case by simp
next
  case (2 k cfg)
  from "2.prems"(3) have c': "c' = AList.delete k cfg" by (auto split: if_splits)
  from "2.prems"(4) obtain q rest where qs: "qs = q # rest" by (cases qs) auto
  with "2.prems"(4) c' have "q \<noteq> k" "get_path qs cfg = Inr (JDict [])"
    by (auto simp: get_path_delete split: if_splits)
  with qs show ?case by auto
next
  case (3 k k' ks cfg)
  from "3.prems"(1) obtain sub where m: "map_of cfg k = Some (JDict sub)"
    and g: "get_path (k' # ks) sub = Inr x"
    by (auto split: option.splits jval.splits)
  from wf_dict_map_of[OF "3.prems"(2) m] have wfs: "wf_dict sub" by simp
  from "3.prems"(3) m obtain sub' where d: "del_path (k' # ks) sub = Inr sub'"
    and c': "c' = AList.update k (JDict sub') cfg"
    by (auto split: sum.splits)
  from del_path_props[OF g wfs] d
  have da: "butlast (k' # ks) = [] \<or> (\<exists>s. get_path (butlast (k' # ks)) sub' = Inr (JDict s))"
    by auto
  from "3.prems"(4) obtain q rest where qs: "qs = q # rest" by (cases qs) auto
  show ?case
  proof (cases "q = k")
    case False
    with "3.prems"(4) qs c' have "get_path qs cfg = Inr (JDict [])"
      by (simp add: get_path_update_other)
    with False qs show ?thesis by auto
  next
    case True
    show ?thesis
    proof (cases "rest = []")
      case r: True
      with "3.prems"(4) qs c' True have e: "sub' = []" by (simp add: get_path_update_same)
      have "butlast (k' # ks) = []"
      proof (rule ccontr)
        assume n: "butlast (k' # ks) \<noteq> []"
        with da obtain s where "get_path (butlast (k' # ks)) sub' = Inr (JDict s)" by blast
        with e n show False by (cases "butlast (k' # ks)") (auto simp: get_path_not_key)
      qed
      then have "butlast (k # k' # ks) = [k]" by simp
      with r qs True show ?thesis by auto
    next
      case r: False
      with "3.prems"(4) qs c' True have "get_path rest sub' = Inr (JDict [])"
        by (simp add: get_path_update_same)
      from "3.IH"[OF m refl g wfs d this]
      have i: "rest \<noteq> k' # ks" "get_path rest sub = Inr (JDict []) \<or> rest = butlast (k' # ks)"
        by auto
      have "get_path (k # rest) cfg = get_path rest sub" using m r by (cases rest) auto
      with i qs True show ?thesis by auto
    qed
  qed
qed

lemma prune_empties:
  "wf_dict c \<Longrightarrow> ks = [] \<or> (\<exists>s. get_path ks c = Inr (JDict s)) \<Longrightarrow>
     (\<And>qs. get_path qs c = Inr (JDict []) \<Longrightarrow> qs = ks \<or> P qs) \<Longrightarrow>
     prune ks c = Inr c' \<Longrightarrow> get_path qs c' = Inr (JDict []) \<Longrightarrow> P qs"
proof (induction ks c arbitrary: c' qs rule: prune.induct)
  case (1 keys cfg)
  show ?case
  proof (cases "keys = []")
    case True
    with "1.prems"(4) have "c' = cfg" by (simp add: prune.simps)
    with "1.prems"(3)[of qs] "1.prems"(5) True show ?thesis by auto
  next
    case False
    with "1.prems"(2) obtain s where g: "get_path keys cfg = Inr (JDict s)" by blast
    show ?thesis
    proof (cases "s = []")
      case ne: False
      with g False "1.prems"(4) have "c' = cfg" by (simp add: prune.simps)
      with "1.prems"(3)[of qs] "1.prems"(5) g ne show ?thesis by auto
    next
      case True
      from del_path_props[OF g "1.prems"(1)] obtain c1 where d: "del_path keys cfg = Inr c1"
        and wf1: "wf_dict c1"
        and da: "butlast keys = [] \<or> (\<exists>s. get_path (butlast keys) c1 = Inr (JDict s))"
        by blast
      have len: "0 < length keys" using False by simp
      have pl: "py_len (JDict s) = Inr 0" using True by simp
      have p: "prune (butlast keys) c1 = Inr c'"
        using "1.prems"(4) len g pl d by (subst (asm) prune.simps) simp
      have inv: "qs' = butlast keys \<or> P qs'" if "get_path qs' c1 = Inr (JDict [])" for qs'
        using del_path_empties[OF g "1.prems"(1) d that] "1.prems"(3)[of qs'] by auto
      from "1.IH"[OF len g pl refl d wf1 da inv p "1.prems"(5)] show ?thesis .
    qed
  qed
qed

lemma diff_step_empties:
  assumes wf: "wf_dict cfg" and lf: "leaf_in ks (JDict cfg) = Some v"
    and s: "diff_step old (join ks) v cfg = Inr cfg'"
    and e: "get_path qs cfg' = Inr (JDict [])"
  shows "get_path qs cfg = Inr (JDict [])"
proof (cases "hit old (join ks) v")
  case False
  with s have "cfg' = cfg" by (simp add: diff_step_def hit_def)
  with e show ?thesis by simp
next
  case True
  from lf have ne: "ks \<noteq> []" by (cases ks) auto
  have sf: "\<forall>k\<in>set ks. CHR ''/'' \<notin> set k"
    using leaf_in_slash_free[of "JDict cfg" ks v] wf lf by simp
  have sp: "split CHR ''/'' (join ks) = ks" using split_join[OF ne sf] .
  have g: "get_path ks cfg = Inr v" using leaf_in_get_path[OF lf] .
  from del_path_props[OF g wf] obtain c1 where d: "del_path ks cfg = Inr c1"
    and wf1: "wf_dict c1"
    and da: "butlast ks = [] \<or> (\<exists>s. get_path (butlast ks) c1 = Inr (JDict s))"
    by blast
  from s True d sp have p: "prune (butlast ks) c1 = Inr cfg'"
    by (simp add: diff_step_def hit_def Let_def)
  have inv: "qs' = butlast ks \<or> get_path qs' cfg = Inr (JDict [])"
    if "get_path qs' c1 = Inr (JDict [])" for qs'
    using del_path_empties[OF g wf d that] by auto
  from prune_empties[OF wf1 da inv p e] show ?thesis .
qed

lemma diff_loop_empties:
  assumes "wf_dict cfg" "distinct (map fst items)"
    and "\<forall>(p, v)\<in>set items. \<exists>ks. p = join ks \<and> leaf_in ks (JDict cfg) = Some v"
    and "diff_loop old items cfg = Inr cfg'"
    and "get_path qs cfg' = Inr (JDict [])"
  shows "get_path qs cfg = Inr (JDict [])"
  using assms
proof (induction items arbitrary: cfg)
  case Nil
  then show ?case by simp
next
  case (Cons item items)
  obtain p v where item: "item = (p, v)" by (cases item)
  from Cons.prems(3) item obtain ks where p: "p = join ks" and lf: "leaf_in ks (JDict cfg) = Some v"
    by auto
  from diff_step_props[OF Cons.prems(1) lf, of old] obtain c1 where
    s: "diff_step old (join ks) v cfg = Inr c1" and wf1: "wf_dict c1"
    and l1: "\<And>qs. leaf_in qs (JDict c1) =
               (if hit old (join ks) v \<and> qs = ks then None else leaf_in qs (JDict cfg))"
    by blast
  have d: "distinct (map fst items)" using Cons.prems(2) by simp
  have pn: "p \<notin> fst ` set items" using Cons.prems(2) item by simp
  have rest: "\<forall>(p', v')\<in>set items. \<exists>ks'. p' = join ks' \<and> leaf_in ks' (JDict c1) = Some v'"
  proof (clarify)
    fix p' v' assume m: "(p', v') \<in> set items"
    with Cons.prems(3) obtain ks' where k': "p' = join ks'" "leaf_in ks' (JDict cfg) = Some v'"
      by fastforce
    from m pn have "p' \<noteq> p" by force
    with k' p have "ks' \<noteq> ks" by auto
    with l1[of ks'] k' show "\<exists>ks'. p' = join ks' \<and> leaf_in ks' (JDict c1) = Some v'" by auto
  qed
  from Cons.prems(4) s item p have lp: "diff_loop old items c1 = Inr cfg'" by simp
  from Cons.IH[OF wf1 d rest lp Cons.prems(5)] have "get_path qs c1 = Inr (JDict [])" .
  from diff_step_empties[OF Cons.prems(1) lf s this] show ?case .
qed

lemma diff_config_empties:
  assumes wf: "wf_dict cand" and d: "diff_config b cand = Inr d"
    and e: "get_path qs d = Inr (JDict [])"
  shows "get_path qs cand = Inr (JDict [])"
proof -
  from d obtain bc where bc: "config (attrs b) = Some bc"
    and l: "diff_loop (flatten bc) (flatten cand) cand = Inr d"
    by (auto simp: diff_config_def split: option.splits)
  have 1: "distinct (map fst (flatten cand))"
    using flat_items_distinct[OF wf, of "[]"] by (simp add: flatten_wf[OF wf])
  have 2: "\<forall>(p, v)\<in>set (flatten cand). \<exists>ks. p = join ks \<and> leaf_in ks (JDict cand) = Some v"
    using flatten_leaf[OF wf] by blast
  from diff_loop_empties[OF wf 1 2 l e] show ?thesis .
qed

lemma diff_config_no_empty:
  assumes wf: "wf_dict cand" and ne: "no_empty cand" and d: "diff_config b cand = Inr d"
    and wfd: "wf_dict d"
  shows "no_empty d"
  using diff_config_empties[OF wf d] no_empty_iff[OF wf] no_empty_iff[OF wfd] ne by blast

subsection \<open>The compose engine on well-formed configurations\<close>

lemma py_eq_refl_aux:
  shows "py_wf v \<Longrightarrow> v \<noteq> JFloat NaN \<Longrightarrow> py_eq v v"
    and "py_wf_list xs \<Longrightarrow> py_eq_list xs xs"
    and "py_wf_items kvs \<Longrightarrow> distinct (map fst ys) \<Longrightarrow> set kvs \<subseteq> set ys \<Longrightarrow> py_eq_items kvs ys"
proof (induction v and xs and kvs arbitrary: and and ys rule: py_wf_py_wf_list_py_wf_items.induct)
  case (11 k v kvs)
  from "11.prems" have m: "map_of ys k = Some v" by simp
  from "11.prems" have "py_eq v v" "py_eq_items kvs ys"
    using "11.IH" by simp_all
  with m show ?case by simp
qed auto

lemma py_eq_refl: "py_wf v \<Longrightarrow> v \<noteq> JFloat NaN \<Longrightarrow> py_eq v v"
  by (rule py_eq_refl_aux(1))

lemma leaf_in_empty [simp]: "leaf_in qs (JDict []) = None"
  by (cases qs) auto

lemma deep_update_nondict:
  "(\<And>dk. d \<noteq> JDict dk) \<Longrightarrow> \<exists>e. deep_update d ((k, v) # u) = Inl e"
  by (cases d; cases v) auto

lemma deep_update_Cons_nondict:
  "(\<And>sub. v \<noteq> JDict sub) \<Longrightarrow>
     deep_update (JDict dk) ((k, v) # u) = deep_update (JDict (AList.update k v dk)) u"
  by (cases v) auto

lemma deep_update_Cons_dict:
  "deep_update (JDict dk) ((k, JDict vu) # u) =
     (case deep_update (case map_of dk k of None \<Rightarrow> JDict [] | Some x \<Rightarrow> x) vu of
        Inl e \<Rightarrow> Inl e
      | Inr r \<Rightarrow> deep_update (JDict (AList.update k r dk)) u)"
  by simp

lemma wfv_nondict: "(\<And>sub. v \<noteq> JDict sub) \<Longrightarrow> wfv v = py_wf v"
  by (cases v) (auto simp: wfv_def)

lemma deep_update_props:
  "deep_update d u = Inr m \<Longrightarrow> wf_dict u \<Longrightarrow> wfv d \<Longrightarrow>
     (case d of
        JDict dk \<Rightarrow> (\<exists>mc. m = JDict mc \<and> merged dk u mc)
      | _ \<Rightarrow> u = [] \<and> m = d)"
proof (induction u arbitrary: d m rule: measure_induct_rule[where f="\<lambda>u. size (JDict u)"])
  case (less u)
  show ?case
  proof (cases u)
    case Nil
    with less.prems have "m = d" by simp
    with Nil less.prems(3) show ?thesis
      by (cases d) (auto simp: merged_def)
  next
    case (Cons kv u')
    obtain k v where kv: "kv = (k, v)" by (cases kv)
    from less.prems(2) Cons kv have ksl: "CHR ''/'' \<notin> set k" and kn: "k \<notin> fst ` set u'"
      and wv: "wfv v" and wfu': "wf_dict u'"
      by (auto simp: wfv_def)
    have "\<exists>dk. d = JDict dk"
    proof (rule ccontr)
      assume "\<nexists>dk. d = JDict dk"
      then have "\<And>dk. d \<noteq> JDict dk" by blast
      from deep_update_nondict[OF this, of k v u'] less.prems(1) Cons kv show False by auto
    qed
    then obtain dk where d: "d = JDict dk" by blast
    with less.prems(3) have wfdk: "wf_dict dk" by simp
    have sz: "size (JDict u') < size (JDict u)" using Cons by simp
    \<comment> \<open>the value r stored under k, and the second call\<close>
    have "\<exists>r. wfv r \<and> deep_update (JDict (AList.update k r dk)) u' = Inr m
         \<and> (\<forall>rest w. leaf_in rest v = Some w \<longrightarrow> leaf_in rest r = Some w)
         \<and> (\<forall>rest w. leaf_in rest r = Some w \<longrightarrow>
               leaf_in rest v = Some w \<or> leaf_in (k # rest) (JDict dk) = Some w)"
    proof (cases "\<exists>vu. v = JDict vu")
      case False
      then have nd: "\<And>sub. v \<noteq> JDict sub" by blast
      from less.prems(1) Cons kv d have "deep_update (JDict (AList.update k v dk)) u' = Inr m"
        by (simp only: deep_update_Cons_nondict[OF nd])
      with wv show ?thesis by blast
    next
      case True
      then obtain vu where v: "v = JDict vu" by blast
      let ?x = "case map_of dk k of None \<Rightarrow> JDict [] | Some x \<Rightarrow> x"
      from less.prems(1) Cons kv d v obtain r where r1: "deep_update ?x vu = Inr r"
        and r2: "deep_update (JDict (AList.update k r dk)) u' = Inr m"
        by (auto simp only: deep_update_Cons_dict split: sum.splits)
      have wfx: "wfv ?x" using wf_dict_map_of[OF wfdk] by (auto split: option.splits)
      have wfvu: "wf_dict vu" using wv v by simp
      have szv: "size (JDict vu) < size (JDict u)" using Cons kv v by simp
      have lx: "leaf_in rest ?x = Some w \<Longrightarrow> leaf_in (k # rest) (JDict dk) = Some w" for rest w
        by (cases "map_of dk k"; cases rest) auto
      from less.IH[OF szv r1 wfvu wfx]
      have c: "case ?x of JDict xs \<Rightarrow> (\<exists>rc. r = JDict rc \<and> merged xs vu rc) | _ \<Rightarrow> vu = [] \<and> r = ?x" .
      show ?thesis
      proof (cases "\<exists>xs. ?x = JDict xs")
        case True
        then obtain xs where xs: "?x = JDict xs" by blast
        with c obtain rc where rc: "r = JDict rc" and mg: "merged xs vu rc" by auto
        from mg have "wfv r" by (simp add: rc merged_def)
        moreover have "\<forall>rest w. leaf_in rest v = Some w \<longrightarrow> leaf_in rest r = Some w"
          using mg by (simp add: merged_def v rc)
        moreover have "\<forall>rest w. leaf_in rest r = Some w \<longrightarrow>
               leaf_in rest v = Some w \<or> leaf_in (k # rest) (JDict dk) = Some w"
        proof (intro allI impI)
          fix rest w assume "leaf_in rest r = Some w"
          with mg rc have "leaf_in rest (JDict vu) = Some w \<or> leaf_in rest (JDict xs) = Some w"
            unfolding merged_def by blast
          with lx[of rest w] xs v
          show "leaf_in rest v = Some w \<or> leaf_in (k # rest) (JDict dk) = Some w" by auto
        qed
        ultimately show ?thesis using r2 by blast
      next
        case False
        then have nd: "\<And>xs. ?x \<noteq> JDict xs" by blast
        with c have e: "vu = [] \<and> r = ?x" by (cases ?x) auto
        have "\<forall>rest w. leaf_in rest v = Some w \<longrightarrow> leaf_in rest r = Some w"
        proof (intro allI impI)
          fix rest w assume "leaf_in rest v = Some w"
          with v e show "leaf_in rest r = Some w" by (cases rest) auto
        qed
        moreover have "\<forall>rest w. leaf_in rest r = Some w \<longrightarrow>
               leaf_in rest v = Some w \<or> leaf_in (k # rest) (JDict dk) = Some w"
          using lx e by auto
        ultimately show ?thesis using r2 wfx e by auto
      qed
    qed
    then obtain r where wfr: "wfv r" and r2: "deep_update (JDict (AList.update k r dk)) u' = Inr m"
      and vr: "\<And>rest w. leaf_in rest v = Some w \<Longrightarrow> leaf_in rest r = Some w"
      and rv: "\<And>rest w. leaf_in rest r = Some w \<Longrightarrow>
               leaf_in rest v = Some w \<or> leaf_in (k # rest) (JDict dk) = Some w"
      by blast
    let ?d2 = "AList.update k r dk"
    have wfd2: "wfv (JDict ?d2)" using wf_dict_update[OF wfdk ksl wfr] by simp
    from less.IH[OF sz r2 wfu' wfd2] obtain mc where m: "m = JDict mc" and mg: "merged ?d2 u' mc"
      by auto
    from mg have wfmc: "wf_dict mc"
      and b2: "\<And>qs w. leaf_in qs (JDict u') = Some w \<Longrightarrow> leaf_in qs (JDict mc) = Some w"
      and c2: "\<And>qs w. leaf_in qs (JDict mc) = Some w \<Longrightarrow>
           leaf_in qs (JDict u') = Some w \<or> leaf_in qs (JDict ?d2) = Some w"
      and d2: "\<And>q rest w. leaf_in (q # rest) (JDict ?d2) = Some w \<Longrightarrow> q \<notin> fst ` set u' \<Longrightarrow>
           leaf_in (q # rest) (JDict mc) = Some w"
      unfolding merged_def by blast+
    have B: "leaf_in qs (JDict mc) = Some w" if "leaf_in qs (JDict u) = Some w" for qs w
    proof (cases qs)
      case Nil
      with that show ?thesis by simp
    next
      case (Cons q rest)
      show ?thesis
      proof (cases "q = k")
        case True
        with that Cons \<open>u = kv # u'\<close> kv have "leaf_in rest v = Some w" by simp
        from vr[OF this] have "leaf_in (k # rest) (JDict ?d2) = Some w"
          by (simp only: leaf_in_update) simp
        from d2[OF this kn] True Cons show ?thesis by simp
      next
        case False
        with that Cons \<open>u = kv # u'\<close> kv have "leaf_in qs (JDict u') = Some w" by simp
        from b2[OF this] show ?thesis .
      qed
    qed
    have C: "leaf_in qs (JDict u) = Some w \<or> leaf_in qs (JDict dk) = Some w"
      if "leaf_in qs (JDict mc) = Some w" for qs w
    proof (cases qs)
      case Nil
      with that show ?thesis by simp
    next
      case (Cons q rest)
      from c2[OF that] show ?thesis
      proof
        assume a: "leaf_in qs (JDict u') = Some w"
        with Cons kn have "q \<noteq> k" using leaf_in_not_key[of k u' rest] by auto
        with a Cons \<open>u = kv # u'\<close> kv show ?thesis by simp
      next
        assume a: "leaf_in qs (JDict ?d2) = Some w"
        show ?thesis
        proof (cases "q = k")
          case True
          with a Cons have "leaf_in rest r = Some w" by (simp only: leaf_in_update) simp
          from rv[OF this] True Cons \<open>u = kv # u'\<close> kv show ?thesis by auto
        next
          case False
          with a Cons have "leaf_in qs (JDict dk) = Some w" by (simp only: leaf_in_update) simp
          then show ?thesis by simp
        qed
      qed
    qed
    have D: "leaf_in (q # rest) (JDict mc) = Some w"
      if "leaf_in (q # rest) (JDict dk) = Some w" "q \<notin> fst ` set u" for q rest w
    proof -
      from that(2) \<open>u = kv # u'\<close> kv have qk: "q \<noteq> k" and qn: "q \<notin> fst ` set u'" by auto
      from that(1) qk have "leaf_in (q # rest) (JDict ?d2) = Some w"
        by (simp only: leaf_in_update) simp
      from d2[OF this qn] show ?thesis .
    qed
    from B C D wfmc have "merged dk u mc" unfolding merged_def by blast
    with m d show ?thesis by simp
  qed
qed

lemma no_empty_update:
  "no_empty dk \<Longrightarrow> (case x of JDict s \<Rightarrow> s \<noteq> [] \<and> no_empty s | _ \<Rightarrow> True) \<Longrightarrow>
     no_empty (AList.update k x dk)"
  by (induction dk rule: no_empty.induct) auto

lemma deep_update_no_empty:
  "deep_update (JDict dk) u = Inr m \<Longrightarrow> wf_dict u \<Longrightarrow> no_empty u \<Longrightarrow> no_empty dk \<Longrightarrow>
     \<exists>mc. m = JDict mc \<and> no_empty mc \<and> (dk \<noteq> [] \<or> u \<noteq> [] \<longrightarrow> mc \<noteq> [])"
proof (induction u arbitrary: dk m rule: measure_induct_rule[where f="\<lambda>u. size (JDict u)"])
  case (less u)
  show ?case
  proof (cases u)
    case Nil
    with less.prems show ?thesis by auto
  next
    case (Cons kv u')
    obtain k v where kv: "kv = (k, v)" by (cases kv)
    from less.prems(2) Cons kv have wfu': "wf_dict u'" and wv: "wfv v" by (auto simp: wfv_def)
    from less.prems(3) Cons kv have neu': "no_empty u'"
      and nev: "case v of JDict s \<Rightarrow> s \<noteq> [] \<and> no_empty s | _ \<Rightarrow> True" by auto
    have sz: "size (JDict u') < size (JDict u)" using Cons by simp
    have "\<exists>r. deep_update (JDict (AList.update k r dk)) u' = Inr m
         \<and> (case r of JDict s \<Rightarrow> s \<noteq> [] \<and> no_empty s | _ \<Rightarrow> True)"
    proof (cases "\<exists>vu. v = JDict vu")
      case False
      then have nd: "\<And>sub. v \<noteq> JDict sub" by blast
      from less.prems(1) Cons kv have "deep_update (JDict (AList.update k v dk)) u' = Inr m"
        by (simp only: deep_update_Cons_nondict[OF nd])
      with nev show ?thesis by blast
    next
      case True
      then obtain vu where v: "v = JDict vu" by blast
      with nev have vune: "vu \<noteq> []" and nevu: "no_empty vu" by auto
      let ?x = "case map_of dk k of None \<Rightarrow> JDict [] | Some x \<Rightarrow> x"
      from less.prems(1) Cons kv v obtain r where r1: "deep_update ?x vu = Inr r"
        and r2: "deep_update (JDict (AList.update k r dk)) u' = Inr m"
        by (auto simp only: deep_update_Cons_dict split: sum.splits)
      have "\<exists>xs. ?x = JDict xs"
      proof (rule ccontr)
        assume "\<nexists>xs. ?x = JDict xs"
        then have nd: "\<And>xs. ?x \<noteq> JDict xs" by blast
        from vune obtain k1 v1 rest where "vu = (k1, v1) # rest" by (cases vu) auto
        with deep_update_nondict[OF nd, of k1 v1 rest] r1 show False by auto
      qed
      then obtain xs where xs: "?x = JDict xs" by blast
      have nexs: "no_empty xs"
      proof (cases "map_of dk k")
        case None
        with xs show ?thesis by auto
      next
        case (Some y)
        with xs have "map_of dk k = Some (JDict xs)" by simp
        from no_empty_map_of[OF less.prems(4) this] show ?thesis by simp
      qed
      have wfvu: "wf_dict vu" using wv v by simp
      have szv: "size (JDict vu) < size (JDict u)" using Cons kv v by simp
      from less.IH[OF szv r1[unfolded xs] wfvu nevu nexs] vune
      obtain rc where "r = JDict rc" "no_empty rc" "rc \<noteq> []" by auto
      with r2 show ?thesis by auto
    qed
    then obtain r where r2: "deep_update (JDict (AList.update k r dk)) u' = Inr m"
      and ner: "case r of JDict s \<Rightarrow> s \<noteq> [] \<and> no_empty s | _ \<Rightarrow> True" by blast
    from less.IH[OF sz r2 wfu' neu' no_empty_update[OF less.prems(4) ner]]
    show ?thesis by auto
  qed
qed

lemma has_leaf:
  "no_empty c \<Longrightarrow> c \<noteq> [] \<Longrightarrow> \<exists>qs w. leaf_in qs (JDict c) = Some w"
proof (induction c rule: no_empty.induct)
  case 1
  then show ?case by simp
next
  case (2 k v kvs)
  show ?case
  proof (cases "\<exists>sub. v = JDict sub")
    case False
    then have "leaf_in [k] (JDict ((k, v) # kvs)) = Some v" by (cases v) auto
    then show ?thesis by blast
  next
    case True
    then obtain sub where v: "v = JDict sub" by blast
    with "2.prems" have "sub \<noteq> []" "no_empty sub" by auto
    from "2.IH"(1)[OF v this(2) this(1)] obtain qs w where "leaf_in qs (JDict sub) = Some w"
      by blast
    with v have "leaf_in (k # qs) (JDict ((k, v) # kvs)) = Some w" by simp
    then show ?thesis by blast
  qed
qed

lemma key_has_leaf:
  assumes "no_empty c" "k \<in> fst ` set c"
  shows "\<exists>rest w. leaf_in (k # rest) (JDict c) = Some w"
proof -
  from assms(2) obtain v where m: "map_of c k = Some v"
    by (metis map_of_eq_None_iff not_Some_eq)
  show ?thesis
  proof (cases "\<exists>sub. v = JDict sub")
    case False
    with m have "leaf_in [k] (JDict c) = Some v" by (cases v) auto
    then show ?thesis by blast
  next
    case True
    then obtain sub where v: "v = JDict sub" by blast
    from no_empty_map_of[OF assms(1) m[unfolded v]] have "sub \<noteq> []" "no_empty sub" by auto
    from has_leaf[OF this(2) this(1)] obtain qs w where "leaf_in qs (JDict sub) = Some w" by blast
    with m v have "leaf_in (k # qs) (JDict c) = Some w" by simp
    then show ?thesis by blast
  qed
qed

lemma leaf_key: "leaf_in (k # rest) (JDict c) = Some w \<Longrightarrow> k \<in> fst ` set c"
  using leaf_in_not_key[of k c rest] by auto

lemma size_sub:
  "(k, JDict sub) \<in> set r \<Longrightarrow> size (JDict sub) < size (JDict r)"
  by (induction r) auto

lemma same_tree_nondict: "(\<And>sub. v \<noteq> JDict sub) \<Longrightarrow> same_tree v v"
  by (cases v) auto

lemma same_leaves_same_tree:
  "wf_dict r \<Longrightarrow> wf_dict D \<Longrightarrow> no_empty r \<Longrightarrow> no_empty D \<Longrightarrow>
     (\<And>qs. leaf_in qs (JDict r) = leaf_in qs (JDict D)) \<Longrightarrow>
     same_tree (JDict r) (JDict D)"
proof (induction r arbitrary: D rule: measure_induct_rule[where f="\<lambda>r. size (JDict r)"])
  case (less r)
  have keys: "fst ` set r = fst ` set D"
  proof (intro equalityI subsetI)
    fix k assume "k \<in> fst ` set r"
    from key_has_leaf[OF less.prems(3) this] obtain rest w where "leaf_in (k # rest) (JDict r) = Some w"
      by blast
    with less.prems(5)[of "k # rest"] show "k \<in> fst ` set D" using leaf_key[of k rest D w] by simp
  next
    fix k assume "k \<in> fst ` set D"
    from key_has_leaf[OF less.prems(4) this] obtain rest w where "leaf_in (k # rest) (JDict D) = Some w"
      by blast
    with less.prems(5)[of "k # rest"] show "k \<in> fst ` set r" using leaf_key[of k rest r w] by simp
  qed
  have len: "length r = length D"
  proof -
    have "card (set (map fst r)) = card (set (map fst D))" using keys by simp
    then show ?thesis
      using distinct_card[OF wf_dict_distinct[OF less.prems(1)]]
        distinct_card[OF wf_dict_distinct[OF less.prems(2)]] by simp
  qed
  have one: "\<exists>w. map_of D k = Some w \<and> same_tree v w" if kv: "(k, v) \<in> set r" for k v
  proof -
    have mr: "map_of r k = Some v" using kv wf_dict_distinct[OF less.prems(1)] by simp
    show ?thesis
    proof (cases "\<exists>sub. v = JDict sub")
      case False
      then have nd: "\<And>sub. v \<noteq> JDict sub" by blast
      with mr have "leaf_in [k] (JDict r) = Some v" by (cases v) auto
      with less.prems(5)[of "[k]"] have "leaf_in [k] (JDict D) = Some v" by simp
      then have "map_of D k = Some v" by (auto split: option.splits jval.splits)
      with same_tree_nondict[OF nd] show ?thesis by simp
    next
      case True
      then obtain sub where v: "v = JDict sub" by blast
      from no_empty_map_of[OF less.prems(3) mr[unfolded v]] have nes: "sub \<noteq> []" "no_empty sub"
        by auto
      from wf_dict_map_of[OF less.prems(1) mr] v have wfs: "wf_dict sub" by simp
      from has_leaf[OF nes(2) nes(1)] obtain qs w where lq: "leaf_in qs (JDict sub) = Some w" by blast
      then have qne: "qs \<noteq> []" by (cases qs) auto
      from lq mr v have "leaf_in (k # qs) (JDict r) = Some w" by simp
      with less.prems(5)[of "k # qs"] have ld: "leaf_in (k # qs) (JDict D) = Some w" by simp
      then obtain x where mD: "map_of D k = Some x" and lx: "leaf_in qs x = Some w"
        by (auto split: option.splits)
      from lx qne obtain sub' where x: "x = JDict sub'" by (cases x; cases qs) auto
      from no_empty_map_of[OF less.prems(4) mD[unfolded x]] have nes': "no_empty sub'" by simp
      from wf_dict_map_of[OF less.prems(2) mD] x have wfs': "wf_dict sub'" by simp
      have same: "leaf_in qs' (JDict sub) = leaf_in qs' (JDict sub')" for qs'
      proof -
        have "leaf_in qs' (JDict sub) = leaf_in (k # qs') (JDict r)" using mr v by simp
        also have "\<dots> = leaf_in (k # qs') (JDict D)" using less.prems(5) .
        also have "\<dots> = leaf_in qs' (JDict sub')" using mD x by simp
        finally show ?thesis .
      qed
      from less.IH[OF size_sub[OF kv[unfolded v]] wfs wfs' nes(2) nes' same]
      have "same_tree (JDict sub) (JDict sub')" .
      with mD x v show ?thesis by simp
    qed
  qed
  have items: "same_items xs D" if "set xs \<subseteq> set r" for xs
    using that
  proof (induction xs)
    case Nil
    then show ?case by simp
  next
    case (Cons a xs)
    obtain k v where a: "a = (k, v)" by (cases a)
    with Cons.prems have "(k, v) \<in> set r" by simp
    from one[OF this] obtain w where "map_of D k = Some w" "same_tree v w" by blast
    with Cons a show ?case by simp
  qed
  from len items[of r] show ?case by simp
qed

subsection \<open>Construction against a base\<close>

lemma generate_name_ok:
  "config (attrs s) = Some c \<Longrightarrow> \<exists>n s'. generate_name pystr s = Inr (n, s')
     \<and> config (attrs s') = Some c \<and> data_config (data (attrs s')) = data_config (data (attrs s))
     \<and> base_preset s' = base_preset s"
  by (simp add: generate_name_def Let_def)

lemma init_against_base:
  assumes "data_config dat = Some cand" "diff_config b cand = Inr d"
  shows "\<exists>s. config (attrs s) = Some d \<and> data_config (data (attrs s)) = Some d
           \<and> init pystr u now fromts (Some dat) (Some b) f =
               (case fromts (case data_creation_time dat of None \<Rightarrow> now | Some x \<Rightarrow> x) of
                  Inl e \<Rightarrow> Inl e
                | Inr ct \<Rightarrow> Inr (Preset ((attrs s)\<lparr>creation_time := ct\<rparr>) (Some b)))"
proof -
  let ?t = "case data_creation_time dat of None \<Rightarrow> now | Some x \<Rightarrow> x"
  let ?u = "case data_uuid dat of None \<Rightarrow> u | Some x \<Rightarrow> x"
  let ?d3 = "dat\<lparr>data_uuid := Some ?u, data_creation_time := Some ?t, data_config := Some d\<rparr>"
  let ?s1 = "Preset ((attrs (init_no_data (Some b) f))\<lparr>data := ?d3, config := Some d\<rparr>) (Some b)"
  let ?ab = "case data_abstract dat of None \<Rightarrow> False | Some x \<Rightarrow> py_bool x"
  show ?thesis
  proof (cases "data_name dat")
    case (Some n)
    let ?s = "Preset ((attrs ?s1)\<lparr>name := n, uuid := ?u, abstract := ?ab\<rparr>) (Some b)"
    have "init pystr u now fromts (Some dat) (Some b) f =
               (case fromts ?t of Inl e \<Rightarrow> Inl e
                | Inr ct \<Rightarrow> Inr (Preset ((attrs ?s)\<lparr>creation_time := ct\<rparr>) (Some b)))"
      using Some assms
      by (simp add: init_def set_data_def init_no_data_def Let_def split: sum.splits)
    moreover have "config (attrs ?s) = Some d \<and> data_config (data (attrs ?s)) = Some d" by simp
    ultimately show ?thesis by blast
  next
    case None
    have "config (attrs ?s1) = Some d" by simp
    from generate_name_ok[OF this, of pystr] obtain n s' where
      g: "generate_name pystr ?s1 = Inr (n, s')" and c: "config (attrs s') = Some d"
      and dc: "data_config (data (attrs s')) = data_config (data (attrs ?s1))"
      and bp: "base_preset s' = base_preset ?s1" by blast
    let ?s = "Preset ((attrs s')\<lparr>name := n, uuid := ?u, abstract := ?ab\<rparr>) (Some b)"
    have "init pystr u now fromts (Some dat) (Some b) f =
               (case fromts ?t of Inl e \<Rightarrow> Inl e
                | Inr ct \<Rightarrow> Inr (Preset ((attrs ?s)\<lparr>creation_time := ct\<rparr>) (Some b)))"
      using None assms g bp
      by (simp add: init_def set_data_def init_no_data_def Let_def split: sum.splits)
    moreover have "config (attrs ?s) = Some d \<and> data_config (data (attrs ?s)) = Some d"
      using c dc by simp
    ultimately show ?thesis by blast
  qed
qed

text \<open>
  C2, as amended. Let a preset be constructed from raw data against a base preset \<open>b\<close>
  that has a configuration block (\<open>b\<close> was itself constructed from data), the candidate
  configuration being well formed: no \<^verbatim>\<open>'/'\<close> inside a key, no NaN inside a list. Then
  \<open>diff_config b\<close> returns a delta \<open>d\<close> in which a path has a value exactly when it has
  that value in the candidate and \<open>b\<close>'s own delta does not hold an equal value (Python's
  \<^verbatim>\<open>==\<close>) at that path; every empty container of \<open>d\<close> was an empty container of the
  candidate, so what the diff empties it removes. Whenever the construction returns a
  preset, \<open>d\<close> is its block and its \<^verbatim>\<open>data['config']\<close>. The construction returns a preset
  when \<^verbatim>\<open>fromtimestamp\<close> accepts the creation time and raises its error otherwise. So
  the stored delta never repeats a value of the immediate base's own delta. The
  ancestors of \<open>b\<close> are not consulted: see the counterexample below.
\<close>

theorem C2_delta_minimal_against_base:
  assumes "wf_dict cand" and "config (attrs b) = Some bc" and "data_config dat = Some cand"
  shows "\<exists>d. diff_config b cand = Inr d
           \<and> (\<forall>path v. map_of (flatten d) path = Some v \<longleftrightarrow>
                 map_of (flatten cand) path = Some v \<and> \<not> hit (flatten bc) path v)
           \<and> (\<forall>qs. get_path qs d = Inr (JDict []) \<longrightarrow> get_path qs cand = Inr (JDict []))
           \<and> (\<forall>p. init pystr u now fromts (Some dat) (Some b) f = Inr p \<longrightarrow>
                 config (attrs p) = Some d \<and> data_config (data (attrs p)) = Some d)
           \<and> (\<forall>ct. fromts (case data_creation_time dat of None \<Rightarrow> now | Some x \<Rightarrow> x) = Inr ct \<longrightarrow>
                 (\<exists>p. init pystr u now fromts (Some dat) (Some b) f = Inr p))
           \<and> (\<forall>e. fromts (case data_creation_time dat of None \<Rightarrow> now | Some x \<Rightarrow> x) = Inl e \<longrightarrow>
                 init pystr u now fromts (Some dat) (Some b) f = Inl e)"
proof -
  from diff_config_flatten[OF assms(1,2)] obtain d where d: "diff_config b cand = Inr d"
    and l: "\<forall>p v. map_of (flatten d) p = Some v \<longleftrightarrow>
                   map_of (flatten cand) p = Some v \<and> \<not> hit (flatten bc) p v"
    by blast
  have e: "\<forall>qs. get_path qs d = Inr (JDict []) \<longrightarrow> get_path qs cand = Inr (JDict [])"
    using diff_config_empties[OF assms(1) d] by blast
  from init_against_base[OF assms(3) d, of pystr u now fromts f] obtain s where
    s: "config (attrs s) = Some d" "data_config (data (attrs s)) = Some d"
    and i: "init pystr u now fromts (Some dat) (Some b) f =
               (case fromts (case data_creation_time dat of None \<Rightarrow> now | Some x \<Rightarrow> x) of
                  Inl e \<Rightarrow> Inl e
                | Inr ct \<Rightarrow> Inr (Preset ((attrs s)\<lparr>creation_time := ct\<rparr>) (Some b)))"
    by blast
  have 1: "\<forall>p. init pystr u now fromts (Some dat) (Some b) f = Inr p \<longrightarrow>
                 config (attrs p) = Some d \<and> data_config (data (attrs p)) = Some d"
    using s by (auto simp: i split: sum.splits)
  have 2: "\<forall>ct. fromts (case data_creation_time dat of None \<Rightarrow> now | Some x \<Rightarrow> x) = Inr ct \<longrightarrow>
                 (\<exists>p. init pystr u now fromts (Some dat) (Some b) f = Inr p)"
    by (simp add: i)
  have 3: "\<forall>e. fromts (case data_creation_time dat of None \<Rightarrow> now | Some x \<Rightarrow> x) = Inl e \<longrightarrow>
                 init pystr u now fromts (Some dat) (Some b) f = Inl e"
    by (simp add: i)
  from d l e 1 2 3 show ?thesis by blast
qed

lemma ex_cand_facts:
  "wf_dict ex_cand"
  "config (attrs ex_mid) = Some [(''db'', JDict [(''port'', JInt 6000)])]"
  "data_config (ex_raw ex_cand) = Some ex_cand"
  "diff_config ex_mid ex_cand = Inr [(''lr'', JInt 3)]"
  "fromts_ex (case data_creation_time (ex_raw ex_cand) of None \<Rightarrow> 0 | Some x \<Rightarrow> x) = Inr 0"
  by (simp_all add: ex_cand_def ex_defs ex_raw_def diff_config_def diff_step_def prune.simps
        fromts_ex_def)

theorem C2_delta_minimal_against_base_witness:
  "wf_dict ex_cand
   \<and> config (attrs ex_mid) = Some [(''db'', JDict [(''port'', JInt 6000)])]
   \<and> data_config (ex_raw ex_cand) = Some ex_cand
   \<and> diff_config ex_mid ex_cand = Inr [(''lr'', JInt 3)]
   \<and> hit (flatten [(''db'', JDict [(''port'', JInt 6000)])]) ''db/port'' (JInt 6000)
   \<and> fromts_ex 0 = Inr 0
   \<and> map_sum id (config \<circ> attrs)
        (init str_ex ''u'' 0 fromts_ex (Some (ex_raw ex_cand)) (Some ex_mid) None) =
       Inr (Some [(''lr'', JInt 3)])
   \<and> fromts_ex 253402300800 = Inl (ValueError ''year is out of range'')
   \<and> init str_ex ''u'' 253402300800 fromts_ex (Some (ex_raw ex_cand)) (Some ex_mid) None =
       Inl (ValueError ''year is out of range'')"
proof -
  have t: "fromts_ex 0 = Inr 0"
    "fromts_ex 253402300800 = Inl (ValueError ''year is out of range'')"
    "fromts_ex (case data_creation_time (ex_raw ex_cand) of None \<Rightarrow> 253402300800 | Some x \<Rightarrow> x) =
       Inl (ValueError ''year is out of range'')"
    by (simp_all add: fromts_ex_def ex_raw_def)
  from C2_delta_minimal_against_base[OF ex_cand_facts(1,2,3), of str_ex "''u''" 0 fromts_ex None]
    ex_cand_facts(4,5)
  obtain p where "init str_ex ''u'' 0 fromts_ex (Some (ex_raw ex_cand)) (Some ex_mid) None = Inr p"
    "config (attrs p) = Some [(''lr'', JInt 3)]" by auto
  moreover
  from C2_delta_minimal_against_base[OF ex_cand_facts(1,2,3), of str_ex "''u''" 253402300800 fromts_ex None]
    t(3)
  have "init str_ex ''u'' 253402300800 fromts_ex (Some (ex_raw ex_cand)) (Some ex_mid) None =
       Inl (ValueError ''year is out of range'')" by blast
  moreover have "hit (flatten [(''db'', JDict [(''port'', JInt 6000)])]) ''db/port'' (JInt 6000)"
    by (simp add: hit_def flatten_def)
  ultimately show ?thesis using ex_cand_facts t by simp
qed

text \<open>Why the candidate's keys must not contain \<^verbatim>\<open>'/'\<close>: the path \<^verbatim>\<open>a/b\<close> of the key
  \<^verbatim>\<open>"a/b"\<close> is split into the keys \<^verbatim>\<open>a\<close> and \<^verbatim>\<open>b\<close>, so the entry deleted is another one,
  or none and the deletion raises \<^verbatim>\<open>KeyError\<close>.\<close>

lemma diff_config_slash_key_examples:
  "diff_config (mk_preset ''base'' [(''a'', JDict [(''b'', JInt 1)])] None)
      [(''a/b'', JInt 1), (''a'', JDict [(''b'', JInt 1)])] = Inr [(''a/b'', JInt 1)]"
  "diff_config (mk_preset ''base'' [(''a'', JDict [(''b'', JInt 1)])] None)
      [(''a/b'', JInt 1)] = Inl (KeyError ''a'')"
  by (simp_all add: mk_preset_def flatten_def diff_config_def diff_step_def prune.simps)

text \<open>
  C2, as stated, fails on a chain of depth two. \<open>ex_mid\<close> derives from \<open>ex_root\<close>, which
  holds \<^verbatim>\<open>debug = False\<close>. A preset constructed against \<open>ex_mid\<close> from a candidate that
  repeats \<^verbatim>\<open>debug = False\<close> stores it, although the chain of \<open>ex_mid\<close> resolves
  \<^verbatim>\<open>debug\<close> to the identical value.
\<close>

theorem C2_delta_minimal_full_chain_counterexample:
  "diff_config ex_mid ex_redundant = Inr ex_redundant
   \<and> map_sum id (config \<circ> attrs)
        (init str_ex ''u'' 0 fromts_ex (Some (ex_raw ex_redundant)) (Some ex_mid) None) =
       Inr (Some ex_redundant)
   \<and> map_of (flatten ex_redundant) ''debug'' = Some (JBool False)
   \<and> get_value conv_ex ex_mid ''debug'' TBool = Inr (JBool False)
   \<and> py_eq (JBool False) (JBool False)"
  by (simp add: ex_redundant_def ex_defs ex_raw_def diff_config_def diff_step_def prune.simps
        init_def set_data_def init_no_data_def generate_name_def endswith_def str_ex_def
        fromts_ex_def Let_def)

subsection \<open>Round trip of compose and diff\<close>

text \<open>
  C3, as amended. Let \<open>B\<close> be a root preset (no base) whose block is its raw
  configuration, with no leaf that is NaN, and \<open>D\<close> an overlay, both well formed (no
  \<^verbatim>\<open>'/'\<close> inside a key, no NaN inside a list), such that the deep merge of \<open>D\<close> on
  \<open>B.compose_config()\<close> does not raise. Then \<open>B.diff_config\<close> of the merged configuration
  returns a configuration \<open>r\<close> with these properties. A path has a value in \<open>r\<close> exactly
  when it has that value in \<open>D\<close> and \<open>B\<close> does not hold an equal value there. Every
  empty container of \<open>r\<close> was already an empty container of the merged configuration:
  the containers that the diff empties are removed, together with their parents that
  become empty. If \<open>D\<close> is a genuine delta (none of its entries equals \<open>B\<close>'s), \<open>r\<close> and
  \<open>D\<close> have the same leaves at the same paths; if moreover neither \<open>B\<close> nor \<open>D\<close> has an
  empty container, \<open>r\<close> has none and is \<open>D\<close> itself, up to the order of the keys.
\<close>

theorem C3_roundtrip_root_base:
  assumes "base_preset B = None"
    and "config (attrs B) = Some bc" and "data_config (data (attrs B)) = Some bc"
    and "wf_dict bc" and "wf_dict D"
    and "\<forall>(path, v)\<in>set (flatten bc). v \<noteq> JFloat NaN"
    and "compose_config B = Inr cb" and "deep_update cb D = Inr m"
  shows "\<exists>mc r. cb = JDict bc \<and> m = JDict mc \<and> diff_config B mc = Inr r
           \<and> (\<forall>path v. map_of (flatten r) path = Some v \<longleftrightarrow>
                 map_of (flatten D) path = Some v \<and> \<not> hit (flatten bc) path v)
           \<and> (\<forall>qs. get_path qs r = Inr (JDict []) \<longrightarrow> get_path qs mc = Inr (JDict []))
           \<and> ((\<forall>(path, v)\<in>set (flatten D). \<not> hit (flatten bc) path v) \<longrightarrow>
                 map_of (flatten r) = map_of (flatten D))
           \<and> ((\<forall>(path, v)\<in>set (flatten D). \<not> hit (flatten bc) path v)
                \<and> no_empty bc \<and> no_empty D \<longrightarrow>
                 no_empty r \<and> same_tree (JDict r) (JDict D))"
proof -
  obtain a where B: "B = Preset a None" using assms(1) by (cases B) auto
  from assms(3,7) B have cb: "cb = JDict bc" by simp
  note mrg = assms(8)[unfolded cb]
  from deep_update_props[OF mrg assms(5)] assms(4)
  obtain mc where m: "m = JDict mc" and mg: "merged bc D mc" by auto
  from mg have wfmc: "wf_dict mc"
    and b: "\<And>qs w. leaf_in qs (JDict D) = Some w \<Longrightarrow> leaf_in qs (JDict mc) = Some w"
    and c: "\<And>qs w. leaf_in qs (JDict mc) = Some w \<Longrightarrow>
           leaf_in qs (JDict D) = Some w \<or> leaf_in qs (JDict bc) = Some w"
    unfolding merged_def by blast+
  from diff_config_leaves[OF wfmc assms(2)] obtain r where r: "diff_config B mc = Inr r"
    and wfr: "wf_dict r"
    and lr: "\<And>qs. leaf_in qs (JDict r) =
               (case leaf_in qs (JDict mc) of
                  None \<Rightarrow> None
                | Some w \<Rightarrow> if hit (flatten bc) (join qs) w then None else Some w)"
    by blast
  have emp: "\<forall>qs. get_path qs r = Inr (JDict []) \<longrightarrow> get_path qs mc = Inr (JDict [])"
    using diff_config_empties[OF wfmc r] by blast
  have own: "hit (flatten bc) (join qs) w" if "leaf_in qs (JDict bc) = Some w" for qs w
  proof -
    have mo: "map_of (flatten bc) (join qs) = Some w" using map_of_flatten_join[OF assms(4) that] .
    from map_of_SomeD[OF mo] assms(6) have "w \<noteq> JFloat NaN" by auto
    moreover have "py_wf w" using leaf_in_py_wf[of "JDict bc" qs w] assms(4) that by simp
    ultimately have "py_eq w w" by (simp add: py_eq_refl)
    with mo show ?thesis by (simp add: hit_def)
  qed
  have leafiff: "leaf_in qs (JDict r) = Some v \<longleftrightarrow>
      leaf_in qs (JDict D) = Some v \<and> \<not> hit (flatten bc) (join qs) v" for qs v
  proof
    assume a: "leaf_in qs (JDict r) = Some v"
    with lr[of qs] have mm: "leaf_in qs (JDict mc) = Some v" and nh: "\<not> hit (flatten bc) (join qs) v"
      by (auto split: option.splits if_splits)
    from c[OF mm] own[of qs v] nh have "leaf_in qs (JDict D) = Some v" by auto
    with nh show "leaf_in qs (JDict D) = Some v \<and> \<not> hit (flatten bc) (join qs) v" by simp
  next
    assume a: "leaf_in qs (JDict D) = Some v \<and> \<not> hit (flatten bc) (join qs) v"
    with b[of qs v] have "leaf_in qs (JDict mc) = Some v" by simp
    with a lr[of qs] show "leaf_in qs (JDict r) = Some v" by simp
  qed
  have iff: "map_of (flatten r) p = Some v \<longleftrightarrow>
                 map_of (flatten D) p = Some v \<and> \<not> hit (flatten bc) p v" for p v
    unfolding map_of_flatten[OF wfr] map_of_flatten[OF assms(5)] using leafiff by blast
  have same: "leaf_in qs (JDict r) = leaf_in qs (JDict D)"
    if mn: "\<forall>(path, v)\<in>set (flatten D). \<not> hit (flatten bc) path v" for qs
  proof -
    have h: "leaf_in qs (JDict r) = Some v \<longleftrightarrow> leaf_in qs (JDict D) = Some v" for v
    proof -
      have "\<not> hit (flatten bc) (join qs) v" if l: "leaf_in qs (JDict D) = Some v"
      proof -
        from l have "qs \<noteq> []" by (cases qs) auto
        with l have "(join qs, v) \<in> set (flatten D)" using flatten_leaf[OF assms(5)] by blast
        with mn show ?thesis by auto
      qed
      with leafiff[of qs v] show ?thesis by blast
    qed
    show ?thesis
    proof (cases "leaf_in qs (JDict r)")
      case (Some v)
      with h[of v] show ?thesis by simp
    next
      case None
      have "leaf_in qs (JDict D) = None"
      proof (rule ccontr)
        assume "leaf_in qs (JDict D) \<noteq> None"
        then obtain v where "leaf_in qs (JDict D) = Some v" by blast
        with h[of v] None show False by simp
      qed
      with None show ?thesis by simp
    qed
  qed
  have eq: "map_of (flatten r) = map_of (flatten D)"
    if mn: "\<forall>(path, v)\<in>set (flatten D). \<not> hit (flatten bc) path v"
  proof (rule ext)
    fix p
    have h: "map_of (flatten r) p = Some v \<longleftrightarrow> map_of (flatten D) p = Some v" for v
      unfolding map_of_flatten[OF wfr] map_of_flatten[OF assms(5)] using same[OF mn] by simp
    show "map_of (flatten r) p = map_of (flatten D) p"
    proof (cases "map_of (flatten r) p")
      case (Some v)
      with h[of v] have "map_of (flatten D) p = Some v" by blast
      with Some show ?thesis by simp
    next
      case None
      have "map_of (flatten D) p = None"
      proof (rule ccontr)
        assume "map_of (flatten D) p \<noteq> None"
        then obtain v where "map_of (flatten D) p = Some v" by blast
        with h[of v] None show False by simp
      qed
      with None show ?thesis by simp
    qed
  qed
  have st: "no_empty r \<and> same_tree (JDict r) (JDict D)"
    if mn: "\<forall>(path, v)\<in>set (flatten D). \<not> hit (flatten bc) path v"
      and nb: "no_empty bc" and nd: "no_empty D"
  proof -
    from deep_update_no_empty[OF mrg assms(5) nd nb] m have nm: "no_empty mc" by simp
    from diff_config_no_empty[OF wfmc nm r wfr] have nr: "no_empty r" .
    from same_leaves_same_tree[OF wfr assms(5) nr nd same[OF mn]] nr show ?thesis by simp
  qed
  from cb m r iff emp eq st show ?thesis by blast
qed

lemma ex_overlay_facts:
  "base_preset ex_deep = None"
  "config (attrs ex_deep) = Some [(''a'', JDict [(''b'', JDict [(''c'', JInt 1)])]), (''x'', JInt 2)]"
  "data_config (data (attrs ex_deep)) =
     Some [(''a'', JDict [(''b'', JDict [(''c'', JInt 1)])]), (''x'', JInt 2)]"
  "wf_dict [(''a'', JDict [(''b'', JDict [(''c'', JInt 1)])]), (''x'', JInt 2)]"
  "wf_dict ex_overlay"
  "\<forall>(path, v)\<in>set (flatten [(''a'', JDict [(''b'', JDict [(''c'', JInt 1)])]), (''x'', JInt 2)]).
      v \<noteq> JFloat NaN"
  "compose_config ex_deep =
     Inr (JDict [(''a'', JDict [(''b'', JDict [(''c'', JInt 1)])]), (''x'', JInt 2)])"
  "deep_update (JDict [(''a'', JDict [(''b'', JDict [(''c'', JInt 1)])]), (''x'', JInt 2)]) ex_overlay =
     Inr (JDict [(''a'', JDict [(''b'', JDict [(''c'', JInt 1)])]), (''x'', JInt 5), (''lr'', JInt 3)])"
  by (simp_all add: ex_deep_def mk_preset_def ex_overlay_def flatten_def)

lemma ex_overlay_more:
  "diff_config ex_deep [(''a'', JDict [(''b'', JDict [(''c'', JInt 1)])]), (''x'', JInt 5), (''lr'', JInt 3)]
     = Inr ex_overlay"
  "\<forall>(path, v)\<in>set (flatten ex_overlay).
      \<not> hit (flatten [(''a'', JDict [(''b'', JDict [(''c'', JInt 1)])]), (''x'', JInt 2)]) path v"
  "no_empty [(''a'', JDict [(''b'', JDict [(''c'', JInt 1)])]), (''x'', JInt 2)]"
  "no_empty ex_overlay"
  by (simp_all add: ex_deep_def mk_preset_def ex_overlay_def flatten_def diff_config_def
        diff_step_def prune.simps hit_def)

theorem C3_roundtrip_root_base_witness:
  "base_preset ex_deep = None
   \<and> wf_dict ex_overlay
   \<and> compose_config ex_deep =
       Inr (JDict [(''a'', JDict [(''b'', JDict [(''c'', JInt 1)])]), (''x'', JInt 2)])
   \<and> deep_update (JDict [(''a'', JDict [(''b'', JDict [(''c'', JInt 1)])]), (''x'', JInt 2)]) ex_overlay =
       Inr (JDict [(''a'', JDict [(''b'', JDict [(''c'', JInt 1)])]), (''x'', JInt 5), (''lr'', JInt 3)])
   \<and> diff_config ex_deep
        [(''a'', JDict [(''b'', JDict [(''c'', JInt 1)])]), (''x'', JInt 5), (''lr'', JInt 3)] =
       Inr ex_overlay
   \<and> no_empty ex_overlay
   \<and> same_tree (JDict ex_overlay) (JDict ex_overlay)
   \<and> get_path [''a''] ex_overlay = Inl (KeyError ''a'')"
proof -
  from C3_roundtrip_root_base[OF ex_overlay_facts]
  obtain mc r where mc: "JDict [(''a'', JDict [(''b'', JDict [(''c'', JInt 1)])]), (''x'', JInt 5),
        (''lr'', JInt 3)] = JDict mc"
    and r: "diff_config ex_deep mc = Inr r"
    and st: "(\<forall>(path, v)\<in>set (flatten ex_overlay).
          \<not> hit (flatten [(''a'', JDict [(''b'', JDict [(''c'', JInt 1)])]), (''x'', JInt 2)]) path v)
        \<and> no_empty [(''a'', JDict [(''b'', JDict [(''c'', JInt 1)])]), (''x'', JInt 2)]
        \<and> no_empty ex_overlay \<longrightarrow> no_empty r \<and> same_tree (JDict r) (JDict ex_overlay)"
    by blast
  from mc r ex_overlay_more(1) have "r = ex_overlay" by simp
  with st ex_overlay_more have "same_tree (JDict ex_overlay) (JDict ex_overlay)" by blast
  moreover have "get_path [''a''] ex_overlay = Inl (KeyError ''a'')"
    by (simp add: ex_overlay_def)
  ultimately show ?thesis using ex_overlay_facts ex_overlay_more by simp
qed

text \<open>
  C3, as stated, fails for a base that has a base itself: \<open>ex_mid\<close> composes to its
  root's configuration with its own port; merging the overlay \<^verbatim>\<open>{lr: 3}\<close> and diffing
  against \<open>ex_mid\<close> removes only \<open>ex_mid\<close>'s own entry and keeps the root's entries, such
  as \<^verbatim>\<open>debug\<close>, which the overlay does not have.
\<close>

theorem C3_roundtrip_derived_base_counterexample:
  "compose_config ex_mid =
     Inr (JDict [(''db'', JDict [(''port'', JInt 6000), (''host'', JStr ''localhost'')]),
      (''debug'', JBool False), (''retries'', JInt 0), (''tags'', JList [JStr ''x''])])
   \<and> deep_update (JDict [(''db'', JDict [(''port'', JInt 6000), (''host'', JStr ''localhost'')]),
      (''debug'', JBool False), (''retries'', JInt 0), (''tags'', JList [JStr ''x''])]) [(''lr'', JInt 3)] =
     Inr (JDict [(''db'', JDict [(''port'', JInt 6000), (''host'', JStr ''localhost'')]),
      (''debug'', JBool False), (''retries'', JInt 0), (''tags'', JList [JStr ''x'']), (''lr'', JInt 3)])
   \<and> diff_config ex_mid [(''db'', JDict [(''port'', JInt 6000), (''host'', JStr ''localhost'')]),
      (''debug'', JBool False), (''retries'', JInt 0), (''tags'', JList [JStr ''x'']), (''lr'', JInt 3)] =
     Inr [(''db'', JDict [(''host'', JStr ''localhost'')]),
      (''debug'', JBool False), (''retries'', JInt 0), (''tags'', JList [JStr ''x'']), (''lr'', JInt 3)]
   \<and> map_of (flatten [(''db'', JDict [(''host'', JStr ''localhost'')]),
      (''debug'', JBool False), (''retries'', JInt 0), (''tags'', JList [JStr ''x'']), (''lr'', JInt 3)])
        ''debug'' = Some (JBool False)
   \<and> map_of (flatten [(''lr'', JInt 3)]) ''debug'' = None"
  by (simp add: ex_defs diff_config_def diff_step_def prune.simps)

text \<open>Why the leaves of the root must not be NaN: NaN is not equal to itself, so the
  diff keeps the root's NaN entry, which the overlay does not have.\<close>

lemma roundtrip_nan_leaf_example:
  "compose_config ex_nan_base = Inr (JDict [(''x'', JFloat NaN)])"
  "deep_update (JDict [(''x'', JFloat NaN)]) [(''lr'', JInt 3)] =
     Inr (JDict [(''x'', JFloat NaN), (''lr'', JInt 3)])"
  "diff_config ex_nan_base [(''x'', JFloat NaN), (''lr'', JInt 3)] =
     Inr [(''x'', JFloat NaN), (''lr'', JInt 3)]"
  by (simp_all add: ex_nan_base_def mk_preset_def flatten_def diff_config_def diff_step_def)

text \<open>Why the exact reproduction needs a root without empty containers: the diff
  removes only the containers it empties itself, so an empty container of the root
  stays in the result.\<close>

lemma roundtrip_empty_container_example:
  "diff_config (mk_preset ''hollow'' [(''a'', JDict [])] None) [(''a'', JDict []), (''lr'', JInt 3)] =
     Inr [(''a'', JDict []), (''lr'', JInt 3)]"
  "deep_update (JDict [(''a'', JDict [])]) [(''lr'', JInt 3)] =
     Inr (JDict [(''a'', JDict []), (''lr'', JInt 3)])"
  by (simp_all add: mk_preset_def flatten_def diff_config_def diff_step_def)

text \<open>
  C5 at a failing input. The base \<open>ex_scalar_base\<close> holds the scalar \<^verbatim>\<open>a = 5\<close>; a preset
  constructed against it from the candidate \<^verbatim>\<open>{a: {b: 1}}\<close> stores that delta
  (\<open>ex_clash\<close>). The claim has the overlay value replace the scalar;
  \<^verbatim>\<open>compose_config\<close> raises \<^verbatim>\<open>TypeError\<close> instead, since \<^verbatim>\<open>_deep_update\<close> recurses into
  the scalar. With the empty mapping \<^verbatim>\<open>{a: {}}\<close> as overlay the scalar is kept, not
  overwritten.
\<close>

theorem C5_overlay_mapping_on_scalar:
  "map_sum id (config \<circ> attrs)
      (init str_ex ''u'' 0 fromts_ex (Some (ex_raw [(''a'', JDict [(''b'', JInt 1)])])) (Some ex_scalar_base) None) =
     Inr (config (attrs ex_clash))
   \<and> compose_config ex_scalar_base = Inr (JDict [(''a'', JInt 5)])
   \<and> compose_config ex_clash = Inl (TypeError ''object does not support item assignment'')
   \<and> compose_config ex_empty_overlay = Inr (JDict [(''a'', JInt 5)])"
  by (simp add: ex_defs ex_raw_def ex_scalar_base_def ex_clash_def ex_empty_overlay_def
        diff_config_def diff_step_def prune.simps
        init_def set_data_def init_no_data_def generate_name_def endswith_def str_ex_def
        str_nat.simps fromts_ex_def Let_def)

subsection \<open>Naming\<close>

text \<open>For a preset whose own delta flattens to nothing and whose base is absent or is a
  root, \<^verbatim>\<open>_generate_name\<close> returns \<^verbatim>\<open>"empty"\<close> and writes it into \<^verbatim>\<open>data['name']\<close>,
  changing nothing else.\<close>

lemma generate_name_empty:
  assumes "config (attrs self) = Some c" and "flatten c = []"
    and "case base_preset self of None \<Rightarrow> True | Some b \<Rightarrow> base_preset b = None"
  shows "generate_name pystr self =
     Inr (''empty'',
          Preset ((attrs self)\<lparr>data := (data (attrs self))\<lparr>data_name := Some ''empty''\<rparr>\<rparr>)
            (base_preset self))"
  using assms
  by (auto simp: generate_name_def endswith_def Let_def split: option.splits)

lemma generate_name_empty_examples:
  "map_sum id (name \<circ> attrs) (init str_ex ''u'' 0 fromts_ex (Some (ex_raw [])) (Some ex_root) None) =
     Inr ''empty''"
  "map_sum id (name \<circ> attrs) (init str_ex ''u'' 0 fromts_ex (Some (ex_raw [])) None None) = Inr ''empty''"
  "map_sum id (data_name \<circ> data \<circ> attrs) (init str_ex ''u'' 0 fromts_ex (Some (ex_raw [])) None None) =
     Inr (Some ''empty'')"
  by (simp_all add: ex_defs ex_raw_def diff_config_def
        init_def set_data_def init_no_data_def generate_name_def endswith_def fromts_ex_def Let_def)

text \<open>
  C6 at a failing input. The claim names every preset with no explicit name and an
  empty own delta \<^verbatim>\<open>"empty"\<close>. A preset constructed against \<open>ex_mid\<close>, whose base is
  \<open>ex_root\<close>, from a record with no name and the empty configuration stores the empty
  delta and is named \<^verbatim>\<open>"mid: "\<close>: \<^verbatim>\<open>_generate_name\<close> prepends the base's name and
  \<^verbatim>\<open>": "\<close> before it tests \<^verbatim>\<open>name is ""\<close>, so the test misses, and the separator is left
  dangling. This name is also what \<^verbatim>\<open>data['name']\<close> receives.
\<close>

theorem C6_empty_delta_derived_base:
  "data_name (ex_raw []) = None
   \<and> data_config (ex_raw []) = Some []
   \<and> map_sum id (config \<circ> attrs)
        (init str_ex ''u'' 0 fromts_ex (Some (ex_raw [])) (Some ex_mid) None) = Inr (Some [])
   \<and> map_sum id (name \<circ> attrs)
        (init str_ex ''u'' 0 fromts_ex (Some (ex_raw [])) (Some ex_mid) None) = Inr ''mid: ''
   \<and> map_sum id (data_name \<circ> data \<circ> attrs)
        (init str_ex ''u'' 0 fromts_ex (Some (ex_raw [])) (Some ex_mid) None) = Inr (Some ''mid: '')
   \<and> map_sum id fst
        (generate_name str_ex (mk_preset [] [] (Some ex_mid))) = Inr ''mid: ''"
  by (simp add: ex_defs ex_raw_def diff_config_def
        init_def set_data_def init_no_data_def generate_name_def endswith_def fromts_ex_def Let_def)

end
